theory Spec2Isabelle
  imports Complex_Main "HOL-Library.Log_Nat"
begin

section \<open>The parking lot of parkingLot.py\<close>

subsection \<open>Fixed types\<close>

datatype VehicleType = BIKE | CAR | TRUCK

datatype SpotType = COMPACT | REGULAR | LARGE

subsection \<open>Basic entities\<close>

text \<open>
  A \<open>Vehicle\<close> has no setter: it is a value. A \<open>ParkingSpot\<close> is mutated through
  \<open>occupy\<close> and \<open>free\<close> and is shared between the list of spots and the tickets, so spot
  objects live in a store and are named by a reference. A Python reference always leads
  to an object, so the store is a total function; the objects at references the lot does
  not hold play no part. Python's unbounded integers are \<open>int\<close>. The clock
  \<open>time.time()\<close> is an input of each operation. It returns a finite double, and every
  finite double is a rational number, so a time is a \<open>rat\<close>.
\<close>

record Vehicle =
  number :: string
  vehicle_type :: VehicleType

record ParkingSpot =
  spot_id :: int
  spot_type :: SpotType
  occupied :: bool

type_synonym ref = nat

type_synonym store = "ref \<Rightarrow> ParkingSpot"

definition ParkingSpot_init :: "int \<Rightarrow> SpotType \<Rightarrow> ParkingSpot" where
  "ParkingSpot_init i ty = \<lparr>spot_id = i, spot_type = ty, occupied = False\<rparr>"

definition is_available :: "ParkingSpot \<Rightarrow> bool" where
  "is_available sp = (\<not> occupied sp)"

definition occupy :: "ParkingSpot \<Rightarrow> ParkingSpot" where
  "occupy sp = sp\<lparr>occupied := True\<rparr>"

definition free :: "ParkingSpot \<Rightarrow> ParkingSpot" where
  "free sp = sp\<lparr>occupied := False\<rparr>"

record ParkingTicket =
  ticket_id :: int
  vehicle :: Vehicle
  spot :: ref
  entry_time :: rat

definition ParkingTicket_init :: "int \<Rightarrow> Vehicle \<Rightarrow> ref \<Rightarrow> rat \<Rightarrow> ParkingTicket" where
  \<comment> \<open>the last argument is the value of \<open>time.time()\<close> read by the constructor\<close>
  "ParkingTicket_init i v a now = \<lparr>ticket_id = i, vehicle = v, spot = a, entry_time = now\<rparr>"

subsection \<open>Python floats\<close>

text \<open>
  The fee is computed in IEEE 754 binary64 arithmetic: the result of an operation is the
  exact result rounded to the nearest double, ties to the double with an even
  significand, and a result beyond the largest double is an infinity. A Python float is
  a finite double, given by its rational value, or an infinity; the sign of a zero and
  NaN play no part here (no operation of the fee produces a NaN from finite times).
\<close>

datatype pyfloat = Finite rat | PosInf | NegInf

definition round_half_even :: "rat \<Rightarrow> int" where
  "round_half_even r =
     (let f = \<lfloor>r\<rfloor>; d = r - of_int f
      in if d < 1 / 2 then f else if 1 / 2 < d then f + 1 else if even f then f else f + 1)"

text \<open>
  Doubles are the multiples of \<open>2 ^ j / 2 ^ 1074\<close> with a significand of at most 53 bits:
  the smallest positive double is \<open>1 / 2 ^ 1074\<close>, and a number whose integer part in
  that unit has \<open>m\<close> bits is rounded to a multiple of \<open>2 ^ (m - 53)\<close> units (of one unit
  when \<open>m\<close> is at most 53, the subnormal range). The largest double is below \<open>2 ^ 1024\<close>.
\<close>

definition tiny :: nat where
  "tiny = 1074"

definition round_double :: "rat \<Rightarrow> pyfloat" where
  "round_double q =
     (let y = q * 2 ^ tiny;
          j = nat (bitlen \<lfloor>\<bar>y\<bar>\<rfloor> - 53);
          r = round_half_even (y / 2 ^ j) * 2 ^ j
      in if 2 ^ (1024 + tiny) \<le> r then PosInf
         else if r \<le> - (2 ^ (1024 + tiny)) then NegInf
         else Finite (of_int r / 2 ^ tiny))"

definition float_sub :: "rat \<Rightarrow> rat \<Rightarrow> pyfloat" where
  \<comment> \<open>\<open>a - b\<close> on two finite floats\<close>
  "float_sub a b = round_double (a - b)"

fun float_div_3600 :: "pyfloat \<Rightarrow> pyfloat" where
  \<comment> \<open>\<open>a / 3600\<close>: the integer becomes the double 3600.0\<close>
  "float_div_3600 (Finite a) = round_double (a / 3600)"
| "float_div_3600 PosInf = PosInf"
| "float_div_3600 NegInf = NegInf"

fun py_max_1 :: "pyfloat \<Rightarrow> pyfloat" where
  \<comment> \<open>\<open>max(1, h)\<close>: \<open>h\<close> when it is greater than 1, else the first argument, 1\<close>
  "py_max_1 (Finite h) = (if 1 < h then Finite h else Finite 1)"
| "py_max_1 PosInf = PosInf"
| "py_max_1 NegInf = Finite 1"

fun float_mul_50 :: "pyfloat \<Rightarrow> pyfloat" where
  \<comment> \<open>\<open>a * 50\<close>; for the integer 1 the product is the integer 50, the same value\<close>
  "float_mul_50 (Finite a) = round_double (a * 50)"
| "float_mul_50 PosInf = PosInf"
| "float_mul_50 NegInf = NegInf"

subsection \<open>Strategies\<close>

definition calculate_fee :: "rat \<Rightarrow> rat \<Rightarrow> pyfloat" where
  \<comment> \<open>\<open>HourlyPricing.calculate_fee\<close>\<close>
  "calculate_fee entry exit =
     (let hours = float_div_3600 (float_sub exit entry)
      in float_mul_50 (py_max_1 hours))"

text \<open>
  A payment strategy is its \<open>pay\<close> method: from the amount to the answer. What a strategy
  prints or records for itself is outside the lot.
\<close>

type_synonym PaymentStrategy = "pyfloat \<Rightarrow> bool"

definition CashPayment :: PaymentStrategy where
  "CashPayment amount = True"

subsection \<open>The parking lot\<close>

text \<open>
  What the lot writes to the console and the calls it makes to the payment strategy are
  recorded, in order, as events.
\<close>

datatype event =
    Print_Parking_Full
  | Print_Ticket_generated int
  | Print_Invalid_Ticket
  | Print_Exit_successful
  | Pay pyfloat

record ParkingLot =
  heap :: store
  spots :: "ref list"
  tickets :: "int \<rightharpoonup> ParkingTicket"
  ticket_counter :: int

record 'r outcome =
  returned :: 'r
  lot_after :: ParkingLot
  trace :: "event list"

definition ParkingLot_init :: "store \<Rightarrow> ParkingLot" where
  "ParkingLot_init h = \<lparr>heap = h, spots = [], tickets = Map.empty, ticket_counter = 1\<rparr>"

definition add_spot :: "ParkingLot \<Rightarrow> ref \<Rightarrow> ParkingLot" where
  "add_spot s a = s\<lparr>spots := spots s @ [a]\<rparr>"

fun mapping :: "VehicleType \<Rightarrow> SpotType" where
  "mapping BIKE = COMPACT"
| "mapping CAR = REGULAR"
| "mapping TRUCK = LARGE"

fun find_spot_loop :: "store \<Rightarrow> VehicleType \<Rightarrow> ref list \<Rightarrow> ref option" where
  "find_spot_loop h vt [] = None"
| "find_spot_loop h vt (a # rest) =
     (if spot_type (h a) = mapping vt \<and> is_available (h a) then Some a
      else find_spot_loop h vt rest)"

definition find_spot :: "ParkingLot \<Rightarrow> VehicleType \<Rightarrow> ref option" where
  "find_spot s vt = find_spot_loop (heap s) vt (spots s)"

definition park_vehicle :: "ParkingLot \<Rightarrow> Vehicle \<Rightarrow> rat \<Rightarrow> ParkingTicket option outcome" where
  "park_vehicle s v now =
     (case find_spot s (vehicle_type v) of
        None \<Rightarrow> \<lparr>returned = None, lot_after = s, trace = [Print_Parking_Full]\<rparr>
      | Some a \<Rightarrow>
          (let s1 = s\<lparr>heap := (heap s)(a := occupy (heap s a))\<rparr>;
               ticket = ParkingTicket_init (ticket_counter s1) v a now;
               s2 = s1\<lparr>tickets := (tickets s1)(ticket_counter s1 \<mapsto> ticket)\<rparr>;
               s3 = s2\<lparr>ticket_counter := ticket_counter s2 + 1\<rparr>
           in \<lparr>returned = Some ticket, lot_after = s3,
               trace = [Print_Ticket_generated (ticket_counter s2)]\<rparr>))"

text \<open>
  \<open>exit_vehicle\<close> has a bare \<open>return\<close> on the unknown ticket and falls off its end
  otherwise: the value it returns is Python's \<open>None\<close> on every path, here the \<open>None\<close> of
  \<open>bool option\<close>. The pricing strategy of the lot is set to \<open>HourlyPricing()\<close> by the
  constructor and never assigned again.
\<close>

definition exit_vehicle ::
  "ParkingLot \<Rightarrow> int \<Rightarrow> PaymentStrategy \<Rightarrow> rat \<Rightarrow> bool option outcome" where
  "exit_vehicle s tid payment_strategy now =
     (case tickets s tid of
        None \<Rightarrow> \<lparr>returned = None, lot_after = s, trace = [Print_Invalid_Ticket]\<rparr>
      | Some ticket \<Rightarrow>
          (let fee = calculate_fee (entry_time ticket) now in
           if payment_strategy fee then
             (let s1 = s\<lparr>heap := (heap s)(spot ticket := free (heap s (spot ticket)))\<rparr>;
                  s2 = s1\<lparr>tickets := (tickets s1)(tid := None)\<rparr>
              in \<lparr>returned = None, lot_after = s2, trace = [Pay fee, Print_Exit_successful]\<rparr>)
           else \<lparr>returned = None, lot_after = s, trace = [Pay fee]\<rparr>))"

subsection \<open>Gates\<close>

definition enter :: "ParkingLot \<Rightarrow> Vehicle \<Rightarrow> rat \<Rightarrow> ParkingTicket option outcome" where
  \<comment> \<open>\<open>EntranceGate.enter\<close>\<close>
  "enter s v now = park_vehicle s v now"


subsection \<open>Sequences of calls\<close>

datatype call = Park Vehicle rat | Exit int PaymentStrategy rat

fun step :: "ParkingLot \<Rightarrow> call \<Rightarrow> ParkingLot" where
  "step s (Park v now) = lot_after (park_vehicle s v now)"
| "step s (Exit tid p now) = lot_after (exit_vehicle s tid p now)"

fun run :: "ParkingLot \<Rightarrow> call list \<Rightarrow> ParkingLot" where
  "run s [] = s"
| "run s (c # cs) = run (step s c) cs"

text \<open>The identifiers of the tickets handed out along a sequence of calls, in order.\<close>

fun issued :: "ParkingLot \<Rightarrow> call list \<Rightarrow> int list" where
  "issued s [] = []"
| "issued s (Park v now # cs) =
     (case returned (park_vehicle s v now) of
        None \<Rightarrow> issued (step s (Park v now)) cs
      | Some ticket \<Rightarrow> ticket_id ticket # issued (step s (Park v now)) cs)"
| "issued s (Exit tid p now # cs) = issued (step s (Exit tid p now)) cs"

text \<open>
  A lot as the program sets it up: a fresh \<open>ParkingLot\<close>, then \<open>add_spot\<close> for each
  reference of a list, in order.
\<close>

definition setup_lot :: "store \<Rightarrow> ref list \<Rightarrow> ParkingLot" where
  "setup_lot h refs = foldl add_spot (ParkingLot_init h) refs"

subsection \<open>The program's own run, and predicates on lots\<close>

text \<open>
  The main block of the file registers three fresh spots, \<open>ParkingSpot(1, COMPACT)\<close>,
  \<open>ParkingSpot(2, REGULAR)\<close> and \<open>ParkingSpot(3, LARGE)\<close>; here they are allocated at the
  references 0, 1 and 2 of any store.
\<close>

definition three_spots :: "store \<Rightarrow> store" where
  "three_spots h = h(0 := ParkingSpot_init 1 COMPACT, 1 := ParkingSpot_init 2 REGULAR,
                     2 := ParkingSpot_init 3 LARGE)"

definition main_lot :: "store \<Rightarrow> ParkingLot" where
  "main_lot h = setup_lot (three_spots h) [0, 1, 2]"

definition blank :: store where
  "blank = (\<lambda>a. ParkingSpot_init 0 COMPACT)"

text \<open>
  The vehicle of the main block, and the lot after \<open>entrance.enter(vehicle)\<close> at time 0.
\<close>

definition car :: Vehicle where
  "car = \<lparr>number = ''KA01AB1234'', vehicle_type = CAR\<rparr>"

definition parked_lot :: ParkingLot where
  "parked_lot = lot_after (enter (main_lot blank) car 0)"

text \<open>
  The source has one payment strategy, \<open>CashPayment\<close>, which always answers \<open>True\<close>.
  \<open>declined\<close> stands for a subclass of \<open>PaymentStrategy\<close> whose \<open>pay\<close> answers \<open>False\<close>.
\<close>

definition declined :: PaymentStrategy where
  "declined amount = False"

text \<open>
  The bookkeeping that every call keeps: a live ticket has an identifier below the
  counter and refers to a registered spot that is occupied, an occupied registered spot
  has a live ticket, and two live tickets never share a spot.
\<close>

definition lot_inv :: "ParkingLot \<Rightarrow> bool" where
  "lot_inv s =
     ((\<forall>t tk. tickets s t = Some tk \<longrightarrow>
          t < ticket_counter s \<and> spot tk \<in> set (spots s) \<and> occupied (heap s (spot tk))) \<and>
      (\<forall>a \<in> set (spots s). occupied (heap s a) \<longrightarrow>
          (\<exists>t tk. tickets s t = Some tk \<and> spot tk = a)) \<and>
      (\<forall>t t' tk tk'. tickets s t = Some tk \<and> tickets s t' = Some tk' \<and> spot tk = spot tk'
          \<longrightarrow> t = t'))"

section \<open>Finding a spot\<close>

lemma find_spot_loop_find:
  "find_spot_loop h vt refs =
     List.find (\<lambda>a. spot_type (h a) = mapping vt \<and> \<not> occupied (h a)) refs"
  by (induction refs) (simp_all add: is_available_def)

text \<open>
  Claim C2. For every list of spots and every vehicle class, \<open>_find_spot\<close> returns the
  first spot in registration order whose class is the one the fixed mapping
  (Bike to Compact, Car to Regular, Truck to Large) gives for the vehicle class and
  whose occupancy flag is false; it never returns a spot of another class; and it
  returns none exactly when the list holds no such spot.
\<close>

theorem find_spot_first_free_match:
  "mapping BIKE = COMPACT \<and> mapping CAR = REGULAR \<and> mapping TRUCK = LARGE \<and>
   (find_spot s vt = Some a) =
     (\<exists>i < length (spots s). spots s ! i = a \<and>
        spot_type (heap s a) = mapping vt \<and> \<not> occupied (heap s a) \<and>
        (\<forall>j < i. \<not> (spot_type (heap s (spots s ! j)) = mapping vt \<and>
                     \<not> occupied (heap s (spots s ! j))))) \<and>
   (find_spot s vt = None) =
     (\<forall>b \<in> set (spots s). \<not> (spot_type (heap s b) = mapping vt \<and> \<not> occupied (heap s b)))"
proof -
  let ?P = "\<lambda>b. spot_type (heap s b) = mapping vt \<and> \<not> occupied (heap s b)"
  have f: "find_spot s vt = List.find ?P (spots s)"
    by (simp add: find_spot_def find_spot_loop_find)
  have some: "(List.find ?P (spots s) = Some a) =
     (\<exists>i < length (spots s). spots s ! i = a \<and> ?P a \<and> (\<forall>j < i. \<not> ?P (spots s ! j)))"
    unfolding find_Some_iff by blast
  have none: "(List.find ?P (spots s) = None) = (\<forall>b \<in> set (spots s). \<not> ?P b)"
    unfolding find_None_iff by blast
  show ?thesis
    unfolding f some none by simp
qed

theorem find_spot_first_free_match_witness:
  "find_spot (main_lot blank) CAR = Some 1 \<and>
   find_spot (lot_after (park_vehicle (main_lot blank) \<lparr>number = ''KA01AB1234'', vehicle_type = CAR\<rparr> 0))
     CAR = None"
proof -
  let ?s = "main_lot blank"
  let ?s' = "lot_after (park_vehicle ?s \<lparr>number = ''KA01AB1234'', vehicle_type = CAR\<rparr> 0)"
  have sp: "spots ?s = [0, 1, 2]"
    by (simp add: main_lot_def setup_lot_def ParkingLot_init_def add_spot_def)
  have hp: "heap ?s = three_spots blank"
    by (simp add: main_lot_def setup_lot_def ParkingLot_init_def add_spot_def)
  have "\<exists>i < length (spots ?s). spots ?s ! i = 1 \<and>
        spot_type (heap ?s 1) = mapping CAR \<and> \<not> occupied (heap ?s 1) \<and>
        (\<forall>j < i. \<not> (spot_type (heap ?s (spots ?s ! j)) = mapping CAR \<and>
                     \<not> occupied (heap ?s (spots ?s ! j))))"
    unfolding sp hp
    by (intro exI [of _ 1]) (simp add: three_spots_def ParkingSpot_init_def)
  with find_spot_first_free_match [of ?s CAR 1] have first: "find_spot ?s CAR = Some 1"
    by blast
  have sp': "spots ?s' = [0, 1, 2]"
    using first sp by (simp add: park_vehicle_def Let_def)
  have hp': "heap ?s' = (three_spots blank)(1 := occupy (three_spots blank 1))"
    using first hp by (simp add: park_vehicle_def Let_def)
  have "\<forall>b \<in> set (spots ?s'). \<not> (spot_type (heap ?s' b) = mapping CAR \<and> \<not> occupied (heap ?s' b))"
    unfolding sp' hp'
    by (simp add: three_spots_def ParkingSpot_init_def occupy_def)
  with find_spot_first_free_match [of ?s' CAR 1] have "find_spot ?s' CAR = None"
    by blast
  with first show ?thesis by simp
qed

section \<open>Facts about the operations\<close>

lemma foldl_add_spot: "foldl add_spot s refs = s\<lparr>spots := spots s @ refs\<rparr>"
  by (induction refs arbitrary: s) (simp_all add: add_spot_def)

lemma setup_lot_eq:
  "setup_lot h refs = \<lparr>heap = h, spots = refs, tickets = Map.empty, ticket_counter = 1\<rparr>"
  by (simp add: setup_lot_def foldl_add_spot ParkingLot_init_def)

lemma find_spot_SomeD:
  assumes "find_spot s vt = Some a"
  shows "a \<in> set (spots s)" and "spot_type (heap s a) = mapping vt" and "\<not> occupied (heap s a)"
proof -
  from assms have f: "List.find (\<lambda>b. spot_type (heap s b) = mapping vt \<and> \<not> occupied (heap s b))
      (spots s) = Some a"
    by (simp add: find_spot_def find_spot_loop_find)
  then obtain i where "i < length (spots s)" "a = spots s ! i"
    "spot_type (heap s (spots s ! i)) = mapping vt \<and> \<not> occupied (heap s (spots s ! i))"
    unfolding find_Some_iff by blast
  then show "a \<in> set (spots s)" and "spot_type (heap s a) = mapping vt"
    and "\<not> occupied (heap s a)"
    by simp_all
qed

lemma find_spot_NoneD:
  assumes "find_spot s vt = None" and "b \<in> set (spots s)"
    and "spot_type (heap s b) = mapping vt"
  shows "occupied (heap s b)"
proof -
  from assms(1) have "List.find (\<lambda>b. spot_type (heap s b) = mapping vt \<and> \<not> occupied (heap s b))
      (spots s) = None"
    by (simp add: find_spot_def find_spot_loop_find)
  with assms(2,3) show ?thesis
    unfolding find_None_iff by blast
qed

lemma park_vehicle_full:
  "find_spot s (vehicle_type v) = None \<Longrightarrow>
     park_vehicle s v now = \<lparr>returned = None, lot_after = s, trace = [Print_Parking_Full]\<rparr>"
  by (simp add: park_vehicle_def)

lemma park_vehicle_found:
  "find_spot s (vehicle_type v) = Some a \<Longrightarrow>
     park_vehicle s v now =
       \<lparr>returned = Some \<lparr>ticket_id = ticket_counter s, vehicle = v, spot = a, entry_time = now\<rparr>,
        lot_after = s\<lparr>heap := (heap s)(a := (heap s a)\<lparr>occupied := True\<rparr>),
                      tickets := (tickets s)(ticket_counter s \<mapsto>
                        \<lparr>ticket_id = ticket_counter s, vehicle = v, spot = a, entry_time = now\<rparr>),
                      ticket_counter := ticket_counter s + 1\<rparr>,
        trace = [Print_Ticket_generated (ticket_counter s)]\<rparr>"
  by (simp add: park_vehicle_def Let_def ParkingTicket_init_def occupy_def)

lemma exit_vehicle_unknown:
  "tickets s tid = None \<Longrightarrow>
     exit_vehicle s tid p now = \<lparr>returned = None, lot_after = s, trace = [Print_Invalid_Ticket]\<rparr>"
  by (simp add: exit_vehicle_def)

lemma exit_vehicle_declined:
  "tickets s tid = Some tk \<Longrightarrow> \<not> p (calculate_fee (entry_time tk) now) \<Longrightarrow>
     exit_vehicle s tid p now =
       \<lparr>returned = None, lot_after = s, trace = [Pay (calculate_fee (entry_time tk) now)]\<rparr>"
  by (simp add: exit_vehicle_def Let_def)

lemma exit_vehicle_paid:
  "tickets s tid = Some tk \<Longrightarrow> p (calculate_fee (entry_time tk) now) \<Longrightarrow>
     exit_vehicle s tid p now =
       \<lparr>returned = None,
        lot_after = s\<lparr>heap := (heap s)(spot tk := (heap s (spot tk))\<lparr>occupied := False\<rparr>),
                      tickets := (tickets s)(tid := None)\<rparr>,
        trace = [Pay (calculate_fee (entry_time tk) now), Print_Exit_successful]\<rparr>"
  by (simp add: exit_vehicle_def Let_def free_def)

lemma main_lot_eq:
  "main_lot h = \<lparr>heap = three_spots h, spots = [0, 1, 2], tickets = Map.empty, ticket_counter = 1\<rparr>"
  by (simp add: main_lot_def setup_lot_eq)

lemma three_spots_at:
  "three_spots h 0 = \<lparr>spot_id = 1, spot_type = COMPACT, occupied = False\<rparr>"
  "three_spots h (Suc 0) = \<lparr>spot_id = 2, spot_type = REGULAR, occupied = False\<rparr>"
  "three_spots h 2 = \<lparr>spot_id = 3, spot_type = LARGE, occupied = False\<rparr>"
  by (simp_all add: three_spots_def ParkingSpot_init_def)

lemma find_spot_main_lot_car: "find_spot (main_lot h) CAR = Some 1"
  by (simp add: find_spot_def main_lot_eq three_spots_at is_available_def)

lemma parked_lot_eq:
  "parked_lot =
     \<lparr>heap = (three_spots blank)(1 := \<lparr>spot_id = 2, spot_type = REGULAR, occupied = True\<rparr>),
      spots = [0, 1, 2],
      tickets = [1 \<mapsto> \<lparr>ticket_id = 1, vehicle = car, spot = 1, entry_time = 0\<rparr>],
      ticket_counter = 2\<rparr>"
proof -
  have "find_spot (main_lot blank) (vehicle_type car) = Some 1"
    by (simp add: car_def find_spot_main_lot_car)
  from park_vehicle_found [OF this, of 0] show ?thesis
    by (simp add: parked_lot_def enter_def main_lot_eq three_spots_at)
qed

section \<open>Rounding to the nearest double\<close>

lemma round_half_even_of_int: "round_half_even (of_int n) = n"
  by (simp add: round_half_even_def)

lemma round_half_even_le:
  assumes "r \<le> of_int n"
  shows "round_half_even r \<le> n"
proof (cases "r = of_int n")
  case True
  then show ?thesis by (simp add: round_half_even_of_int)
next
  case False
  with assms have "r < of_int n" by simp
  then have "\<lfloor>r\<rfloor> < n" by (simp add: floor_less_iff)
  then have "\<lfloor>r\<rfloor> + 1 \<le> n" by simp
  then show ?thesis
    by (simp add: round_half_even_def Let_def)
qed

lemma round_half_even_ge:
  assumes "of_int n \<le> r"
  shows "n \<le> round_half_even r"
proof -
  from assms have "n \<le> \<lfloor>r\<rfloor>" by (simp add: le_floor_iff)
  then show ?thesis
    by (simp add: round_half_even_def Let_def)
qed

lemma bitlen_le:
  assumes "x < 2 ^ n"
  shows "bitlen x \<le> int n"
proof (cases "0 < x")
  case False
  then have "bitlen x = 0" by (simp add: bitlen_eq_zero_iff)
  then show ?thesis by simp
next
  case True
  from bitlen_bounds [OF True] have "(2::int) ^ nat (bitlen x - 1) \<le> x" by blast
  also note assms
  finally have "nat (bitlen x - 1) < n" by (simp only: power_strict_increasing_iff one_less_numeral_iff semiring_norm)
  then show ?thesis by simp
qed

lemma bitlen_eq:
  assumes "2 ^ n \<le> x" and "x < 2 ^ Suc n"
  shows "bitlen x = int n + 1"
proof -
  have "(0::int) < 2 ^ n" by simp
  with assms(1) have pos: "0 < x" by linarith
  from bitlen_le [OF assms(2)] have up: "bitlen x \<le> int n + 1" by simp
  from bitlen_bounds [OF pos] have "x < 2 ^ nat (bitlen x)" by blast
  with assms(1) have "(2::int) ^ n < 2 ^ nat (bitlen x)" by linarith
  then have "n < nat (bitlen x)" by (simp only: power_strict_increasing_iff one_less_numeral_iff semiring_norm)
  with up show ?thesis by simp
qed

lemma round_double_unfold:
  "round_double q =
     (if 2 ^ (1024 + tiny) \<le> round_half_even (q * 2 ^ tiny / 2 ^ nat (bitlen \<lfloor>\<bar>q * 2 ^ tiny\<bar>\<rfloor> - 53)) *
           2 ^ nat (bitlen \<lfloor>\<bar>q * 2 ^ tiny\<bar>\<rfloor> - 53) then PosInf
      else if round_half_even (q * 2 ^ tiny / 2 ^ nat (bitlen \<lfloor>\<bar>q * 2 ^ tiny\<bar>\<rfloor> - 53)) *
           2 ^ nat (bitlen \<lfloor>\<bar>q * 2 ^ tiny\<bar>\<rfloor> - 53) \<le> - (2 ^ (1024 + tiny)) then NegInf
      else Finite (of_int (round_half_even (q * 2 ^ tiny / 2 ^ nat (bitlen \<lfloor>\<bar>q * 2 ^ tiny\<bar>\<rfloor> - 53)) *
           2 ^ nat (bitlen \<lfloor>\<bar>q * 2 ^ tiny\<bar>\<rfloor> - 53)) / 2 ^ tiny))"
  unfolding round_double_def Let_def ..

lemma round_double_le:
  assumes "0 < c" and "c < 2 ^ 53" and "q \<le> of_int c"
  shows "round_double q = NegInf \<or> (\<exists>r. round_double q = Finite r \<and> r \<le> of_int c)"
proof -
  define y where "y = q * 2 ^ tiny"
  define j where "j = nat (bitlen \<lfloor>\<bar>y\<bar>\<rfloor> - 53)"
  define R where "R = round_half_even (y / 2 ^ j) * 2 ^ j"
  have rd: "round_double q =
      (if 2 ^ (1024 + tiny) \<le> R then PosInf else if R \<le> - (2 ^ (1024 + tiny)) then NegInf
       else Finite (of_int R / 2 ^ tiny))"
    unfolding round_double_unfold y_def j_def R_def ..
  have bound: "R \<le> c * 2 ^ tiny"
  proof (cases "0 < q")
    case False
    then have "y / 2 ^ j \<le> of_int 0" by (simp add: y_def divide_le_0_iff mult_le_0_iff)
    then have "round_half_even (y / 2 ^ j) \<le> 0" by (rule round_half_even_le)
    then have "R \<le> 0" by (simp add: R_def mult_le_0_iff)
    also have "0 \<le> c * 2 ^ tiny" using assms(1) by simp
    finally show ?thesis .
  next
    case True
    then have ypos: "0 < y" by (simp add: y_def)
    have yle: "y \<le> of_int (c * 2 ^ tiny)"
      using assms(3) by (simp add: y_def)
    then have "\<lfloor>y\<rfloor> \<le> c * 2 ^ tiny"
      by (simp add: floor_le_iff)
    also have "c * 2 ^ tiny < 2 ^ 53 * 2 ^ tiny" using assms(2) by simp
    also have "(2::int) ^ 53 * 2 ^ tiny = 2 ^ (53 + tiny)" by (simp only: power_add)
    finally have "\<lfloor>\<bar>y\<bar>\<rfloor> < 2 ^ (53 + tiny)" using ypos by simp
    from bitlen_le [OF this] have jle: "j \<le> tiny" by (simp add: j_def)
    then have split: "(2::int) ^ tiny = 2 ^ (tiny - j) * 2 ^ j"
      by (simp add: power_add [symmetric])
    have "y \<le> of_int (c * 2 ^ (tiny - j)) * 2 ^ j"
    proof -
      have "of_int (c * 2 ^ (tiny - j)) * 2 ^ j = (of_int (c * (2 ^ (tiny - j) * 2 ^ j)) :: rat)"
        by simp
      with yle split show ?thesis by simp
    qed
    then have "y / 2 ^ j \<le> of_int (c * 2 ^ (tiny - j))" by (simp add: pos_divide_le_eq)
    then have "round_half_even (y / 2 ^ j) \<le> c * 2 ^ (tiny - j)" by (rule round_half_even_le)
    then have "R \<le> (c * 2 ^ (tiny - j)) * 2 ^ j" by (simp add: R_def)
    also have "\<dots> = c * 2 ^ tiny" using split by (simp add: mult.assoc)
    finally show ?thesis .
  qed
  have "c * 2 ^ tiny < 2 ^ 53 * (2::int) ^ tiny" using assms(2) by simp
  also have "(2::int) ^ 53 * 2 ^ tiny = 2 ^ (53 + tiny)" by (simp only: power_add)
  also have "(2::int) ^ (53 + tiny) \<le> 2 ^ (1024 + tiny)"
    by (rule power_increasing) simp_all
  finally have "R < 2 ^ (1024 + tiny)" using bound by simp
  moreover have "(of_int R :: rat) / 2 ^ tiny \<le> of_int c"
  proof -
    have "(of_int R :: rat) \<le> of_int (c * 2 ^ tiny)" using bound by (simp only: of_int_le_iff)
    then show ?thesis by (simp add: pos_divide_le_eq)
  qed
  ultimately show ?thesis by (simp add: rd)
qed

lemma round_half_even_near: "\<bar>of_int (round_half_even r) - r\<bar> \<le> 1 / 2"
proof -
  have "of_int \<lfloor>r\<rfloor> \<le> r" "r < of_int \<lfloor>r\<rfloor> + 1" by linarith+
  then show ?thesis
    by (auto simp: round_half_even_def Let_def abs_le_iff)
qed

lemma tiny_ge: "52 \<le> tiny"
  by (simp add: tiny_def)

lemma round_double_normal:
  assumes "2 ^ e \<le> \<bar>q\<bar>" and "\<bar>q\<bar> < 2 ^ Suc e" and "e \<le> 52"
  shows "round_double q = Finite (of_int (round_half_even (q * 2 ^ (52 - e))) / 2 ^ (52 - e))"
proof -
  define y where "y = q * 2 ^ tiny"
  define j where "j = e + (tiny - 52)"
  define M where "M = round_half_even (q * 2 ^ (52 - e))"
  have expo: "tiny = (52 - e) + j" "e + tiny = 52 + j"
    using assms(3) tiny_ge by (simp_all add: j_def)
  have absy: "\<bar>y\<bar> = \<bar>q\<bar> * 2 ^ tiny" by (simp add: y_def abs_mult)
  have "(2::rat) ^ (e + tiny) = 2 ^ e * 2 ^ tiny" by (simp only: power_add)
  also have "\<dots> \<le> \<bar>y\<bar>" using assms(1) by (simp add: absy)
  finally have "of_int (2 ^ (e + tiny)) \<le> \<bar>y\<bar>" by simp
  then have lo: "2 ^ (e + tiny) \<le> \<lfloor>\<bar>y\<bar>\<rfloor>" by (simp only: le_floor_iff)
  have "\<bar>y\<bar> < 2 ^ Suc e * 2 ^ tiny" using assms(2) by (simp add: absy)
  also have "(2::rat) ^ Suc e * 2 ^ tiny = 2 ^ Suc (e + tiny)" by (simp add: power_add)
  finally have "\<bar>y\<bar> < of_int (2 ^ Suc (e + tiny))" by simp
  then have hi: "\<lfloor>\<bar>y\<bar>\<rfloor> < 2 ^ Suc (e + tiny)" by (simp only: floor_less_iff)
  from bitlen_eq [OF lo hi] have "nat (bitlen \<lfloor>\<bar>y\<bar>\<rfloor> - 53) = j"
    using expo(2) by simp
  moreover have "y / 2 ^ j = q * 2 ^ (52 - e)"
    by (simp add: y_def expo(1) power_add)
  ultimately have rd: "round_double q =
      (if 2 ^ (1024 + tiny) \<le> M * 2 ^ j then PosInf
       else if M * 2 ^ j \<le> - (2 ^ (1024 + tiny)) then NegInf
       else Finite (of_int (M * 2 ^ j) / 2 ^ tiny))"
    unfolding round_double_unfold y_def [symmetric] M_def by simp
  have "\<bar>q * 2 ^ (52 - e)\<bar> < 2 ^ Suc e * 2 ^ (52 - e)"
    using assms(2) by (simp add: abs_mult)
  also have "(2::rat) ^ Suc e * 2 ^ (52 - e) = 2 ^ 53"
    using assms(3) by (simp add: power_add [symmetric] del: power_Suc)
  finally have small: "\<bar>q * 2 ^ (52 - e)\<bar> < 2 ^ 53" .
  then have "q * 2 ^ (52 - e) \<le> of_int (2 ^ 53)" "of_int (- (2 ^ 53)) \<le> q * 2 ^ (52 - e)"
    by (simp_all add: abs_less_iff)
  then have M: "M \<le> 2 ^ 53" "- (2 ^ 53) \<le> M"
    unfolding M_def using round_half_even_le [of "q * 2 ^ (52 - e)" "2 ^ 53"]
      round_half_even_ge [of "- (2 ^ 53)" "q * 2 ^ (52 - e)"] by blast+
  have big: "(2::int) ^ 53 * 2 ^ j < 2 ^ (1024 + tiny)"
  proof -
    have "(2::int) ^ 53 * 2 ^ j = 2 ^ (53 + j)" by (simp only: power_add)
    also have "\<dots> < 2 ^ (1024 + tiny)"
      using expo(2) assms(3) by (intro power_strict_increasing) simp_all
    finally show ?thesis .
  qed
  have "M * 2 ^ j \<le> 2 ^ 53 * 2 ^ j" using M(1) by simp
  with big have up: "M * 2 ^ j < 2 ^ (1024 + tiny)" by linarith
  have "- (2 ^ 53 * 2 ^ j) \<le> M * 2 ^ j" using M(2)
    by (metis mult_minus_left mult_right_mono zero_le_numeral zero_le_power)
  with big have down: "- (2 ^ (1024 + tiny)) < M * 2 ^ j" by linarith
  have "(of_int (M * 2 ^ j) :: rat) / 2 ^ tiny = of_int M / 2 ^ (52 - e)"
    by (simp add: expo(1) power_add)
  with up down show ?thesis
    unfolding rd M_def [symmetric] by simp
qed

lemma round_double_near:
  assumes "1 \<le> c" and "of_int c \<le> q" and "q \<le> of_int b" and "b < 2 ^ 53"
  shows "\<exists>r. round_double q = Finite r \<and> of_int c \<le> r \<and> r \<le> of_int b \<and>
           \<bar>r - q\<bar> \<le> q / 2 ^ 53"
proof -
  from assms(1) have "(1::rat) \<le> of_int c" by simp
  with assms(2) have q1: "1 \<le> q" by linarith
  then have fl: "0 < \<lfloor>q\<rfloor>" by (simp add: floor_less_iff less_floor_iff)
  define e where "e = nat (bitlen \<lfloor>q\<rfloor> - 1)"
  from bitlen_bounds [OF fl] have b1: "2 ^ e \<le> \<lfloor>q\<rfloor>" and b2: "\<lfloor>q\<rfloor> < 2 ^ nat (bitlen \<lfloor>q\<rfloor>)"
    by (simp_all add: e_def)
  have "0 < bitlen \<lfloor>q\<rfloor>" using fl by (simp add: bitlen_alt_def)
  then have "nat (bitlen \<lfloor>q\<rfloor>) = Suc e" by (simp add: e_def)
  with b2 have b2': "\<lfloor>q\<rfloor> < 2 ^ Suc e" by simp
  from b1 have lo: "2 ^ e \<le> q"
    by (metis le_floor_iff of_int_numeral of_int_power)
  from b2' have hi: "q < 2 ^ Suc e"
    by (metis floor_less_iff of_int_numeral of_int_power)
  have "\<lfloor>q\<rfloor> \<le> b" using assms(3) by (simp add: floor_le_iff)
  with b1 assms(4) have "(2::int) ^ e < 2 ^ 53" by linarith
  then have "e < 53"
    by (simp only: power_strict_increasing_iff one_less_numeral_iff semiring_norm)
  then have e52: "e \<le> 52" by simp
  have absq: "\<bar>q\<bar> = q" using q1 by simp
  define s where "s = 52 - e"
  define M where "M = round_half_even (q * 2 ^ s)"
  from round_double_normal [of e q] lo hi e52 absq
  have rd: "round_double q = Finite (of_int M / 2 ^ s)"
    by (simp add: M_def s_def)
  have "of_int (c * 2 ^ s) \<le> q * 2 ^ s" using assms(2) by simp
  then have "c * 2 ^ s \<le> M" unfolding M_def by (rule round_half_even_ge)
  then have "(of_int (c * 2 ^ s) :: rat) \<le> of_int M" by (simp only: of_int_le_iff)
  then have ge: "of_int c \<le> (of_int M :: rat) / 2 ^ s" by (simp add: pos_le_divide_eq)
  have "q * 2 ^ s \<le> of_int (b * 2 ^ s)" using assms(3) by simp
  then have "M \<le> b * 2 ^ s" unfolding M_def by (rule round_half_even_le)
  then have "(of_int M :: rat) \<le> of_int (b * 2 ^ s)" by (simp only: of_int_le_iff)
  then have le: "(of_int M :: rat) / 2 ^ s \<le> of_int b" by (simp add: pos_divide_le_eq)
  have "\<bar>of_int M - q * 2 ^ s\<bar> \<le> 1 / 2" unfolding M_def by (rule round_half_even_near)
  then have "\<bar>of_int M - q * 2 ^ s\<bar> / 2 ^ s \<le> (1 / 2) / 2 ^ s"
    by (rule divide_right_mono) simp
  moreover have "\<bar>of_int M - q * 2 ^ s\<bar> / 2 ^ s = \<bar>of_int M / 2 ^ s - q\<bar>"
  proof -
    have "of_int M / 2 ^ s - q = (of_int M - q * 2 ^ s) / 2 ^ s"
      by (simp add: diff_divide_distrib)
    then show ?thesis by (simp add: abs_divide)
  qed
  moreover have "(1 / 2) / 2 ^ s \<le> q / 2 ^ 53"
  proof -
    have se: "Suc (s + e) = 53" using e52 by (simp add: s_def)
    have p: "(2::rat) * 2 ^ s * 2 ^ e = 2 ^ Suc (s + e)" by (simp add: power_add)
    have "(1 / 2) / 2 ^ s = (2::rat) ^ e / (2 * 2 ^ s * 2 ^ e)" by simp
    also have "\<dots> = (2::rat) ^ e / 2 ^ 53" unfolding p se ..
    also have "\<dots> \<le> q / 2 ^ 53" using lo by (simp add: divide_right_mono)
    finally show ?thesis .
  qed
  ultimately have "\<bar>of_int M / 2 ^ s - q\<bar> \<le> q / 2 ^ 53" by simp
  with rd ge le show ?thesis by blast
qed

lemma round_double_int:
  assumes "1 \<le> c" and "c < 2 ^ 53"
  shows "round_double (of_int c) = Finite (of_int c)"
proof -
  from round_double_near [OF assms(1) order_refl order_refl assms(2)]
  obtain r where "round_double (of_int c) = Finite r" "of_int c \<le> r" "r \<le> of_int c" by blast
  then show ?thesis by simp
qed

section \<open>The hourly fee\<close>

lemma round_double_50: "round_double 50 = Finite 50"
  using round_double_int [of 50] by simp

lemma calculate_fee_within_hour:
  assumes "x - e \<le> 3600"
  shows "calculate_fee e x = Finite 50"
proof -
  from round_double_le [of 3600 "x - e"] assms
  consider "float_sub x e = NegInf" | r where "float_sub x e = Finite r" "r \<le> 3600"
    by (auto simp: float_sub_def)
  then show ?thesis
  proof cases
    case 1
    then show ?thesis by (simp add: calculate_fee_def round_double_50)
  next
    case 2
    from 2(2) have "r / 3600 \<le> of_int 1" by simp
    from round_double_le [of 1 "r / 3600", OF _ _ this]
    consider "round_double (r / 3600) = NegInf"
      | h where "round_double (r / 3600) = Finite h" "h \<le> 1"
      by auto
    then show ?thesis
      by cases (simp_all add: calculate_fee_def 2(1) round_double_50)
  qed
qed

lemma round_half_even_numeral: "round_half_even (numeral n) = numeral n"
  using round_half_even_of_int [of "numeral n"] by simp

lemma round_half_even_fraction:
  assumes "0 < b"
  shows "round_half_even (of_int a / of_int b) =
     (if 2 * (a mod b) < b then a div b
      else if b < 2 * (a mod b) then a div b + 1
      else if even (a div b) then a div b else a div b + 1)"
proof -
  have fl: "\<lfloor>(of_int a :: rat) / of_int b\<rfloor> = a div b"
    by (rule floor_divide_of_int_eq)
  have "(of_int a :: rat) = of_int (a div b * b + a mod b)" by (simp only: div_mult_mod_eq)
  also have "\<dots> = of_int (a div b) * of_int b + of_int (a mod b)"
    by (simp only: of_int_add of_int_mult)
  finally have "(of_int a :: rat) / of_int b = of_int (a div b) + of_int (a mod b) / of_int b"
    using assms by (simp add: field_simps)
  then have rest: "(of_int a :: rat) / of_int b - of_int (a div b) = of_int (a mod b) / of_int b"
    by simp
  have lt: "((of_int (a mod b) :: rat) / of_int b < 1 / 2) = (2 * (a mod b) < b)"
  proof -
    have "((of_int (a mod b) :: rat) / of_int b < 1 / 2) = ((of_int (2 * (a mod b)) :: rat) < of_int b)"
      using assms by (simp add: field_simps)
    then show ?thesis by (simp only: of_int_less_iff)
  qed
  have gt: "(1 / 2 < (of_int (a mod b) :: rat) / of_int b) = (b < 2 * (a mod b))"
  proof -
    have "(1 / 2 < (of_int (a mod b) :: rat) / of_int b) = ((of_int b :: rat) < of_int (2 * (a mod b)))"
      using assms by (simp add: field_simps)
    then show ?thesis by (simp only: of_int_less_iff)
  qed
  show ?thesis
    unfolding round_half_even_def Let_def fl rest lt gt ..
qed

lemma round_half_even_numerals:
  "round_half_even (numeral a / numeral b) =
     (if 2 * (numeral a mod numeral b) < (numeral b :: int) then numeral a div numeral b
      else if (numeral b :: int) < 2 * (numeral a mod numeral b) then numeral a div numeral b + 1
      else if even (numeral a div numeral b :: int) then numeral a div numeral b
      else numeral a div numeral b + 1)"
  using round_half_even_fraction [of "numeral b" "numeral a"] by simp

lemma calculate_fee_5400:
  assumes "x - e = 5400"
  shows "calculate_fee e x = Finite 75"
proof -
  have a: "round_double 5400 = Finite 5400"
    using round_double_int [of 5400] by simp
  have b: "round_double (3 / 2) = Finite (3 / 2)"
    using round_double_normal [of 0 "3 / 2"] by (simp add: round_half_even_numeral)
  have c: "round_double 75 = Finite 75"
    using round_double_int [of 75] by simp
  show ?thesis
    by (simp add: calculate_fee_def float_sub_def assms a b c)
qed

lemma calculate_fee_3601:
  "calculate_fee 0 3601 = Finite (7038829105104669 / 140737488355328)"
proof -
  have a: "round_double 3601 = Finite 3601"
    using round_double_int [of 3601] by simp
  have b: "round_double (3601 / 3600) = Finite (1126212656816747 / 1125899906842624)"
    using round_double_normal [of 0 "3601 / 3600"]
    by (simp add: round_half_even_numerals)
  have c: "round_double (28155316420418675 / 562949953421312) =
      Finite (7038829105104669 / 140737488355328)"
    using round_double_normal [of 5 "28155316420418675 / 562949953421312"]
    by (simp add: round_half_even_numerals)
  show ?thesis
    by (simp add: calculate_fee_def float_sub_def a b c)
qed

lemma near_bounds:
  fixes r q u :: rat
  assumes "\<bar>r - q\<bar> \<le> q * u"
  shows "r \<le> q * (1 + u)" and "q * (1 - u) \<le> r"
  using assms by (simp_all add: abs_le_iff algebra_simps)

lemma three_roundings_upper:
  fixes d d1 h f k :: rat
  assumes "0 \<le> k" and "d1 \<le> d * k" and "h \<le> d1 / 3600 * k" and "f \<le> h * 50 * k"
  shows "f \<le> d / 72 * (k * k * k)"
proof -
  have 1: "d1 / 3600 \<le> d * k / 3600" using assms(2) by (simp add: divide_right_mono)
  have 2: "d1 / 3600 * k \<le> d * k / 3600 * k" by (rule mult_right_mono [OF 1 assms(1)])
  have 3: "h \<le> d * k / 3600 * k" using assms(3) 2 by (rule order_trans)
  have 4: "h * 50 \<le> d * k / 3600 * k * 50" using 3 by simp
  have 5: "h * 50 * k \<le> d * k / 3600 * k * 50 * k" by (rule mult_right_mono [OF 4 assms(1)])
  have "f \<le> d * k / 3600 * k * 50 * k" using assms(4) 5 by (rule order_trans)
  also have "\<dots> = d / 72 * (k * k * k)" by simp
  finally show ?thesis .
qed

lemma three_roundings_lower:
  fixes d d1 h f k :: rat
  assumes "0 \<le> k" and "d * k \<le> d1" and "d1 / 3600 * k \<le> h" and "h * 50 * k \<le> f"
  shows "d / 72 * (k * k * k) \<le> f"
proof -
  have 1: "d * k / 3600 \<le> d1 / 3600" using assms(2) by (simp add: divide_right_mono)
  have 2: "d * k / 3600 * k \<le> d1 / 3600 * k" by (rule mult_right_mono [OF 1 assms(1)])
  have 3: "d * k / 3600 * k \<le> h" using 2 assms(3) by (rule order_trans)
  have 4: "d * k / 3600 * k * 50 \<le> h * 50" using 3 by simp
  have 5: "d * k / 3600 * k * 50 * k \<le> h * 50 * k" by (rule mult_right_mono [OF 4 assms(1)])
  have "d / 72 * (k * k * k) = d * k / 3600 * k * 50 * k" by simp
  also have "\<dots> \<le> f" using 5 assms(4) by (rule order_trans)
  finally show ?thesis .
qed

lemma calculate_fee_near:
  assumes "3600 \<le> x - e" and "x - e \<le> 2 ^ 52"
  shows "\<exists>f. calculate_fee e x = Finite f \<and> 50 \<le> f \<and>
           \<bar>f - (x - e) / 72\<bar> \<le> (x - e) / 72 / 2 ^ 51"
proof -
  define d where "d = x - e"
  define u :: rat where "u = 1 / 2 ^ 53"
  have upos: "0 \<le> 1 + u" "0 \<le> 1 - u" by (simp_all add: u_def)
  have dpos: "0 \<le> d / 72" using assms(1) by (simp add: d_def)
  from round_double_near [of 3600 d "2 ^ 52"] assms
  obtain d1 where d1: "round_double d = Finite d1" "3600 \<le> d1" "d1 \<le> 2 ^ 52"
    "\<bar>d1 - d\<bar> \<le> d * u"
    by (auto simp: d_def u_def)
  have "d1 / 3600 \<le> 2 ^ 52 / 3600" using d1(3) by (simp add: divide_right_mono)
  also have "\<dots> \<le> (of_int (2 ^ 41) :: rat)" by simp
  finally have h0_hi: "d1 / 3600 \<le> of_int (2 ^ 41)" .
  have h0_lo: "of_int 1 \<le> d1 / 3600" using d1(2) by simp
  from round_double_near [OF _ h0_lo h0_hi]
  obtain h where h: "round_double (d1 / 3600) = Finite h" "1 \<le> h" "h \<le> 2 ^ 41"
    "\<bar>h - d1 / 3600\<bar> \<le> d1 / 3600 * u"
    by (auto simp: u_def)
  have mx: "py_max_1 (Finite h) = Finite h" using h(2) by simp
  have g_lo: "of_int 50 \<le> h * 50" using h(2) by simp
  have "h * 50 \<le> 2 ^ 41 * 50" using h(3) by simp
  also have "\<dots> \<le> (of_int (2 ^ 47) :: rat)" by simp
  finally have g_hi: "h * 50 \<le> of_int (2 ^ 47)" .
  from round_double_near [OF _ g_lo g_hi]
  obtain f where f: "round_double (h * 50) = Finite f" "50 \<le> f"
    "\<bar>f - h * 50\<bar> \<le> h * 50 * u"
    by (auto simp: u_def)
  have fee: "calculate_fee e x = Finite f"
    unfolding calculate_fee_def Let_def float_sub_def d_def [symmetric] d1(1) float_div_3600.simps
      h(1) mx float_mul_50.simps f(1) ..
  have cube_hi: "(1 + u) * (1 + u) * (1 + u) \<le> 1 + 4 * u"
    and cube_lo: "1 - 4 * u \<le> (1 - u) * (1 - u) * (1 - u)"
    by (simp_all add: u_def)
  note b1 = near_bounds [OF d1(4)] and b2 = near_bounds [OF h(4)] and b3 = near_bounds [OF f(3)]
  have "f \<le> d / 72 * ((1 + u) * (1 + u) * (1 + u))"
    by (rule three_roundings_upper [OF upos(1) b1(1) b2(1) b3(1)])
  also have "\<dots> \<le> d / 72 * (1 + 4 * u)"
    by (rule mult_left_mono [OF cube_hi dpos])
  finally have upper: "f \<le> d / 72 * (1 + 4 * u)" .
  have "d / 72 * (1 - 4 * u) \<le> d / 72 * ((1 - u) * (1 - u) * (1 - u))"
    by (rule mult_left_mono [OF cube_lo dpos])
  also have "\<dots> \<le> f"
    by (rule three_roundings_lower [OF upos(2) b1(2) b2(2) b3(2)])
  finally have lower: "d / 72 * (1 - 4 * u) \<le> f" .
  define w where "w = d / 72"
  have four: "w * (4 * u) = w / 2 ^ 51" by (simp add: u_def)
  have "f \<le> w + w * (4 * u)" "w - w * (4 * u) \<le> f"
    using upper lower by (simp_all add: w_def [symmetric] algebra_simps)
  then have "\<bar>f - w\<bar> \<le> w * (4 * u)"
    by (simp only: abs_le_iff) linarith
  then have "\<bar>f - w\<bar> \<le> w / 2 ^ 51"
    by (simp only: four)
  then have "\<bar>f - d / 72\<bar> \<le> d / 72 / 2 ^ 51"
    unfolding w_def .
  with fee f(2) show ?thesis unfolding d_def by blast
qed

text \<open>
  Claim C3 gives the fee as the exact value of \<open>max(1, (x - e) / 3600) * 50\<close>. For a stay
  of 3601 seconds the exact value is \<open>3601 / 72\<close>; the division and the multiplication
  each round to a double, and the fee is another number.
\<close>

theorem calculate_fee_exact_formula_counterexample:
  "(0::rat) \<le> 3601 \<and>
   calculate_fee 0 3601 = Finite (7038829105104669 / 140737488355328) \<and>
   max 1 ((3601 - 0) / 3600) * 50 = (3601 / 72 :: rat) \<and>
   calculate_fee 0 3601 \<noteq> Finite (max 1 ((3601 - 0) / 3600) * 50)"
  by (simp add: calculate_fee_3601)

text \<open>
  Claim C3, amended. For every entry time and every later exit time, with the unit rate
  50, the hourly fee is \<open>max(1, (x - e) / 3600) * 50\<close> evaluated in double precision, the
  subtraction, the division and the multiplication each rounded to the nearest double.
  For a stay of up to \<open>2 ^ 52\<close> seconds it is the exact value of that formula up to a
  relative error of \<open>1 / 2 ^ 51\<close>, so fractional hours are charged pro rata and not rounded
  up; a stay of at most one hour (300 seconds, say) costs exactly 50 and a stay of 5400
  seconds costs exactly 75.
\<close>

theorem calculate_fee_floor_no_ceiling:
  "e \<le> x \<Longrightarrow>
     calculate_fee e x = float_mul_50 (py_max_1 (float_div_3600 (float_sub x e))) \<and>
     (x - e \<le> 3600 \<longrightarrow> calculate_fee e x = Finite 50) \<and>
     (x - e = 300 \<longrightarrow> calculate_fee e x = Finite 50) \<and>
     (x - e = 5400 \<longrightarrow> calculate_fee e x = Finite 75) \<and>
     (x - e \<le> 2 ^ 52 \<longrightarrow>
        (\<exists>f. calculate_fee e x = Finite f \<and> 50 \<le> f \<and>
           \<bar>f - max 1 ((x - e) / 3600) * 50\<bar> \<le> max 1 ((x - e) / 3600) * 50 / 2 ^ 51))"
proof -
  have evaluated: "calculate_fee e x = float_mul_50 (py_max_1 (float_div_3600 (float_sub x e)))"
    by (simp add: calculate_fee_def)
  have short: "calculate_fee e x = Finite 50" if "x - e \<le> 3600"
    using that by (rule calculate_fee_within_hour)
  have five_minutes: "calculate_fee e x = Finite 50" if "x - e = 300"
    using that by (intro calculate_fee_within_hour) simp
  have ninety_minutes: "calculate_fee e x = Finite 75" if "x - e = 5400"
    using that by (rule calculate_fee_5400)
  have near: "\<exists>f. calculate_fee e x = Finite f \<and> 50 \<le> f \<and>
           \<bar>f - max 1 ((x - e) / 3600) * 50\<bar> \<le> max 1 ((x - e) / 3600) * 50 / 2 ^ 51"
    if "x - e \<le> 2 ^ 52"
  proof (cases "x - e \<le> 3600")
    case True
    then have "(x - e) / 3600 \<le> 1" by simp
    then have unit: "max 1 ((x - e) / 3600) * 50 = 50" by (simp add: max_def)
    show ?thesis
      unfolding unit using short [OF True] by simp
  next
    case False
    then have long: "3600 \<le> x - e" by simp
    then have "1 \<le> (x - e) / 3600" by simp
    then have pro_rata: "max 1 ((x - e) / 3600) * 50 = (x - e) / 72" by (simp add: max_def)
    show ?thesis
      unfolding pro_rata by (rule calculate_fee_near [OF long that])
  qed
  from evaluated short five_minutes ninety_minutes near show ?thesis by blast
qed

theorem calculate_fee_floor_no_ceiling_witness:
  "(0::rat) \<le> 300 \<and> calculate_fee 0 300 = Finite 50 \<and>
   (1000::rat) \<le> 6400 \<and> calculate_fee 1000 6400 = Finite 75 \<and>
   calculate_fee 0 3600 = Finite 50 \<and>
   \<bar>7038829105104669 / 140737488355328 - 3601 / 72\<bar> \<le> (3601 / 72 / 2 ^ 51 :: rat)"
proof -
  have z1: "(0::rat) \<le> 300" and d1: "(300::rat) - 0 \<le> 3600" by simp_all
  from calculate_fee_floor_no_ceiling [OF z1] d1
  have five_minutes: "calculate_fee 0 300 = Finite 50" by blast
  have z2: "(1000::rat) \<le> 6400" and d2: "(6400::rat) - 1000 = 5400" by simp_all
  from calculate_fee_floor_no_ceiling [OF z2] d2
  have ninety_minutes: "calculate_fee 1000 6400 = Finite 75" by blast
  have z3: "(0::rat) \<le> 3600" and d3: "(3600::rat) - 0 \<le> 3600" by simp_all
  from calculate_fee_floor_no_ceiling [OF z3] d3
  have hour: "calculate_fee 0 3600 = Finite 50" by blast
  have z4: "(0::rat) \<le> 3601" and d4: "(3601::rat) - 0 \<le> 2 ^ 52" by simp_all
  from calculate_fee_floor_no_ceiling [OF z4] d4
  obtain f where f: "calculate_fee 0 3601 = Finite f"
    and near: "\<bar>f - max 1 ((3601 - 0) / 3600) * 50\<bar> \<le> max 1 ((3601 - 0) / 3600) * 50 / 2 ^ 51"
    by blast
  have v: "f = 7038829105104669 / 140737488355328"
    using f by (simp add: calculate_fee_3601)
  have m: "max 1 ((3601 - 0) / 3600) * 50 = (3601 / 72 :: rat)" by simp
  from near have "\<bar>7038829105104669 / 140737488355328 - 3601 / 72\<bar> \<le> (3601 / 72 / 2 ^ 51 :: rat)"
    unfolding v m .
  with z1 five_minutes z2 ninety_minutes hour show ?thesis by blast
qed

section \<open>Occupied spots and live tickets\<close>

lemma lot_inv_setup: "\<forall>a \<in> set refs. \<not> occupied (h a) \<Longrightarrow> lot_inv (setup_lot h refs)"
  by (simp add: setup_lot_eq lot_inv_def)

lemma lot_invD:
  assumes "lot_inv s"
  shows "\<And>t tk. tickets s t = Some tk \<Longrightarrow> t < ticket_counter s"
    and "\<And>t tk. tickets s t = Some tk \<Longrightarrow> spot tk \<in> set (spots s)"
    and "\<And>t tk. tickets s t = Some tk \<Longrightarrow> occupied (heap s (spot tk))"
    and "\<And>b. b \<in> set (spots s) \<Longrightarrow> occupied (heap s b) \<Longrightarrow>
                 \<exists>t tk. tickets s t = Some tk \<and> spot tk = b"
    and "\<And>t t' tk tk'. tickets s t = Some tk \<Longrightarrow> tickets s t' = Some tk' \<Longrightarrow>
                 spot tk = spot tk' \<Longrightarrow> t = t'"
  using assms unfolding lot_inv_def by blast+

lemma lot_inv_park:
  assumes "lot_inv s"
  shows "lot_inv (lot_after (park_vehicle s v now))"
proof (cases "find_spot s (vehicle_type v)")
  case None
  with assms show ?thesis by (simp add: park_vehicle_full)
next
  case (Some a)
  note found = find_spot_SomeD [OF Some]
  note inv = lot_invD [OF assms]
  let ?c = "ticket_counter s"
  let ?new = "\<lparr>ticket_id = ?c, vehicle = v, spot = a, entry_time = now\<rparr>"
  let ?s' = "lot_after (park_vehicle s v now)"
  have h': "heap ?s' = (heap s)(a := (heap s a)\<lparr>occupied := True\<rparr>)"
    and sp': "spots ?s' = spots s"
    and tk': "tickets ?s' = (tickets s)(?c \<mapsto> ?new)"
    and c': "ticket_counter ?s' = ?c + 1"
    by (simp_all add: park_vehicle_found [OF Some])
  have nobody: "spot tk \<noteq> a" if "tickets s t = Some tk" for t tk
    using inv(3) [OF that] found(3) by auto
  have old: "t \<noteq> ?c" if "tickets s t = Some tk" for t tk
    using inv(1) [OF that] by simp
  have one: "t < ?c + 1 \<and> spot tk \<in> set (spots s) \<and>
      occupied (((heap s)(a := (heap s a)\<lparr>occupied := True\<rparr>)) (spot tk))"
    if "((tickets s)(?c \<mapsto> ?new)) t = Some tk" for t tk
  proof (cases "t = ?c")
    case True
    with that have "tk = ?new" by simp
    with True found(1) show ?thesis by simp
  next
    case False
    with that have live: "tickets s t = Some tk" by simp
    from inv(1) [OF live] inv(2) [OF live] inv(3) [OF live] show ?thesis by simp
  qed
  have two: "\<exists>t tk. ((tickets s)(?c \<mapsto> ?new)) t = Some tk \<and> spot tk = b"
    if "b \<in> set (spots s)" "occupied (((heap s)(a := (heap s a)\<lparr>occupied := True\<rparr>)) b)" for b
  proof (cases "b = a")
    case True
    have "((tickets s)(?c \<mapsto> ?new)) ?c = Some ?new \<and> spot ?new = b"
      using True by simp
    then show ?thesis by blast
  next
    case False
    with that have "occupied (heap s b)" by simp
    from inv(4) [OF that(1) this] obtain t tk where live: "tickets s t = Some tk" "spot tk = b"
      by blast
    with old [OF live(1)] have "((tickets s)(?c \<mapsto> ?new)) t = Some tk \<and> spot tk = b" by simp
    then show ?thesis by blast
  qed
  have three: "t = t'"
    if "((tickets s)(?c \<mapsto> ?new)) t = Some tk" "((tickets s)(?c \<mapsto> ?new)) t' = Some tk'"
      "spot tk = spot tk'" for t t' tk tk'
  proof (cases "t = ?c"; cases "t' = ?c")
    assume "t = ?c" "t' = ?c"
    then show ?thesis by simp
  next
    assume eq: "t = ?c" and ne: "t' \<noteq> ?c"
    from that(1) eq have "spot tk = a" by auto
    moreover from that(2) ne have "tickets s t' = Some tk'" by simp
    from nobody [OF this] have "spot tk' \<noteq> a" .
    ultimately show ?thesis using that(3) by simp
  next
    assume ne: "t \<noteq> ?c" and eq: "t' = ?c"
    from that(2) eq have "spot tk' = a" by auto
    moreover from that(1) ne have "tickets s t = Some tk" by simp
    from nobody [OF this] have "spot tk \<noteq> a" .
    ultimately show ?thesis using that(3) by simp
  next
    assume "t \<noteq> ?c" "t' \<noteq> ?c"
    with that have "tickets s t = Some tk" "tickets s t' = Some tk'" by simp_all
    from inv(5) [OF this that(3)] show ?thesis .
  qed
  show ?thesis
    unfolding lot_inv_def h' sp' tk' c'
    using one two three by blast
qed

lemma lot_inv_exit:
  assumes "lot_inv s"
  shows "lot_inv (lot_after (exit_vehicle s tid p now))"
proof (cases "tickets s tid")
  case None
  with assms show ?thesis by (simp add: exit_vehicle_unknown)
next
  case (Some ticket)
  note inv = lot_invD [OF assms]
  show ?thesis
  proof (cases "p (calculate_fee (entry_time ticket) now)")
    case False
    with Some assms show ?thesis by (simp add: exit_vehicle_declined)
  next
    case True
    let ?a = "spot ticket"
    let ?s' = "lot_after (exit_vehicle s tid p now)"
    have h': "heap ?s' = (heap s)(?a := (heap s ?a)\<lparr>occupied := False\<rparr>)"
      and sp': "spots ?s' = spots s"
      and tk': "tickets ?s' = (tickets s)(tid := None)"
      and c': "ticket_counter ?s' = ticket_counter s"
      using exit_vehicle_paid [of s tid ticket p now] Some True by simp_all
    have other: "spot tk \<noteq> ?a" if "tickets s t = Some tk" "t \<noteq> tid" for t tk
      using inv(5) [OF that(1) Some] that(2) by blast
    have one: "t < ticket_counter s \<and> spot tk \<in> set (spots s) \<and>
        occupied (((heap s)(?a := (heap s ?a)\<lparr>occupied := False\<rparr>)) (spot tk))"
      if "((tickets s)(tid := None)) t = Some tk" for t tk
    proof -
      from that have ne: "t \<noteq> tid" by (auto split: if_splits)
      with that have live: "tickets s t = Some tk" by simp
      from inv(1) [OF live] inv(2) [OF live] inv(3) [OF live] other [OF live ne]
      show ?thesis by simp
    qed
    have two: "\<exists>t tk. ((tickets s)(tid := None)) t = Some tk \<and> spot tk = b"
      if "b \<in> set (spots s)" "occupied (((heap s)(?a := (heap s ?a)\<lparr>occupied := False\<rparr>)) b)" for b
    proof -
      from that(2) have ne: "b \<noteq> ?a" by (auto split: if_splits)
      with that(2) have "occupied (heap s b)" by simp
      from inv(4) [OF that(1) this] obtain t tk where live: "tickets s t = Some tk" "spot tk = b"
        by blast
      with ne Some have "t \<noteq> tid" by auto
      with live have "((tickets s)(tid := None)) t = Some tk \<and> spot tk = b" by simp
      then show ?thesis by blast
    qed
    have three: "t = t'"
      if "((tickets s)(tid := None)) t = Some tk" "((tickets s)(tid := None)) t' = Some tk'"
        "spot tk = spot tk'" for t t' tk tk'
    proof -
      from that(1,2) have "tickets s t = Some tk" "tickets s t' = Some tk'"
        by (auto split: if_splits)
      from inv(5) [OF this that(3)] show ?thesis .
    qed
    show ?thesis
      unfolding lot_inv_def h' sp' tk' c'
      using one two three by blast
  qed
qed

lemma lot_inv_step: "lot_inv s \<Longrightarrow> lot_inv (step s c)"
  by (cases c) (simp_all add: lot_inv_park lot_inv_exit)

lemma lot_inv_run: "lot_inv s \<Longrightarrow> lot_inv (run s cs)"
  by (induction cs arbitrary: s) (simp_all add: lot_inv_step)

lemma lot_inv_exactly_one:
  assumes "lot_inv s" and "a \<in> set (spots s)"
  shows "occupied (heap s a) = (\<exists>!t. \<exists>tk. tickets s t = Some tk \<and> spot tk = a)"
proof
  note inv = lot_invD [OF assms(1)]
  assume "occupied (heap s a)"
  from inv(4) [OF assms(2) this] obtain t tk where live: "tickets s t = Some tk" "spot tk = a"
    by blast
  show "\<exists>!t. \<exists>tk. tickets s t = Some tk \<and> spot tk = a"
  proof (rule ex1I [of _ t])
    from live show "\<exists>tk. tickets s t = Some tk \<and> spot tk = a" by blast
  next
    fix t' assume "\<exists>tk. tickets s t' = Some tk \<and> spot tk = a"
    then obtain tk' where "tickets s t' = Some tk'" "spot tk' = a" by blast
    with inv(5) [OF this(1) live(1)] live(2) show "t' = t" by simp
  qed
next
  note inv = lot_invD [OF assms(1)]
  assume "\<exists>!t. \<exists>tk. tickets s t = Some tk \<and> spot tk = a"
  then obtain t tk where "tickets s t = Some tk" "spot tk = a" by blast
  with inv(3) [OF this(1)] show "occupied (heap s a)" by simp
qed

text \<open>
  Claim C1. Start from a lot with any list of registered spots, each free as its
  constructor leaves it, and an empty ledger. After any sequence of \<open>park_vehicle\<close> and
  \<open>exit_vehicle\<close> calls a registered spot is occupied if and only if exactly one live
  ticket of the ledger refers to it, no two live tickets refer to the same spot, and
  every live ticket refers to a registered spot that is occupied.
\<close>

theorem occupied_iff_exactly_one_live_ticket:
  assumes "\<forall>a \<in> set refs. \<not> occupied (h a)" and "s = run (setup_lot h refs) cs"
  shows "(\<forall>a \<in> set (spots s).
            occupied (heap s a) = (\<exists>!t. \<exists>tk. tickets s t = Some tk \<and> spot tk = a)) \<and>
         (\<forall>t t' tk tk'. tickets s t = Some tk \<and> tickets s t' = Some tk' \<and> spot tk = spot tk'
            \<longrightarrow> t = t') \<and>
         (\<forall>t tk. tickets s t = Some tk \<longrightarrow>
            spot tk \<in> set (spots s) \<and> occupied (heap s (spot tk)))"
proof -
  from assms have inv: "lot_inv s"
    by (simp add: lot_inv_setup lot_inv_run)
  have "\<forall>a \<in> set (spots s).
          occupied (heap s a) = (\<exists>!t. \<exists>tk. tickets s t = Some tk \<and> spot tk = a)"
    using lot_inv_exactly_one [OF inv] by blast
  moreover have "\<forall>t t' tk tk'. tickets s t = Some tk \<and> tickets s t' = Some tk' \<and>
          spot tk = spot tk' \<longrightarrow> t = t'"
    using lot_invD(5) [OF inv] by blast
  moreover have "\<forall>t tk. tickets s t = Some tk \<longrightarrow>
          spot tk \<in> set (spots s) \<and> occupied (heap s (spot tk))"
    using lot_invD(2,3) [OF inv] by blast
  ultimately show ?thesis by blast
qed

theorem occupied_iff_exactly_one_live_ticket_witness:
  "\<not> occupied (three_spots blank 0) \<and> \<not> occupied (three_spots blank 1) \<and>
   \<not> occupied (three_spots blank 2) \<and>
   occupied (heap (run (setup_lot (three_spots blank) [0, 1, 2])
       [Park \<lparr>number = ''KA01AB1234'', vehicle_type = CAR\<rparr> 0,
        Park \<lparr>number = ''KA02CD5678'', vehicle_type = BIKE\<rparr> 60]) 1) \<and>
   (\<exists>!t. \<exists>tk. tickets (run (setup_lot (three_spots blank) [0, 1, 2])
       [Park \<lparr>number = ''KA01AB1234'', vehicle_type = CAR\<rparr> 0,
        Park \<lparr>number = ''KA02CD5678'', vehicle_type = BIKE\<rparr> 60]) t = Some tk \<and> spot tk = 1)"
proof -
  let ?s = "run (setup_lot (three_spots blank) [0, 1, 2])
       [Park \<lparr>number = ''KA01AB1234'', vehicle_type = CAR\<rparr> 0,
        Park \<lparr>number = ''KA02CD5678'', vehicle_type = BIKE\<rparr> 60]"
  have free: "\<forall>a \<in> set [0, 1, 2]. \<not> occupied (three_spots blank a)"
    by (simp add: three_spots_def ParkingSpot_init_def)
  have sp: "spots ?s = [0, 1, 2]"
    by (simp add: setup_lot_eq park_vehicle_def find_spot_def three_spots_def
        ParkingSpot_init_def is_available_def occupy_def ParkingTicket_init_def Let_def)
  have occ: "occupied (heap ?s 1)"
    by (simp add: setup_lot_eq park_vehicle_def find_spot_def three_spots_def
        ParkingSpot_init_def is_available_def occupy_def ParkingTicket_init_def Let_def)
  from occupied_iff_exactly_one_live_ticket [OF free refl, of "[Park \<lparr>number = ''KA01AB1234'', vehicle_type = CAR\<rparr> 0,
        Park \<lparr>number = ''KA02CD5678'', vehicle_type = BIKE\<rparr> 60]"]
  have "\<forall>a \<in> set (spots ?s).
          occupied (heap ?s a) = (\<exists>!t. \<exists>tk. tickets ?s t = Some tk \<and> spot tk = a)"
    by blast
  with sp have "occupied (heap ?s 1) = (\<exists>!t. \<exists>tk. tickets ?s t = Some tk \<and> spot tk = 1)"
    by simp
  with occ three_spots_at [of blank] show ?thesis by simp
qed

section \<open>Leaving the lot\<close>

text \<open>
  Claim C5. For every state, every payment strategy and every ticket identifier that is
  not in the ledger, \<open>exit_vehicle\<close> reports the invalid ticket and leaves the spots, the
  ledger and the ticket counter as they were; the payment strategy is never called, and
  the outcome does not depend on it.
\<close>

theorem exit_vehicle_invalid_ticket_no_change:
  "tickets s tid = None \<Longrightarrow>
     lot_after (exit_vehicle s tid p now) = s \<and>
     trace (exit_vehicle s tid p now) = [Print_Invalid_Ticket] \<and>
     (\<forall>amount. Pay amount \<notin> set (trace (exit_vehicle s tid p now))) \<and>
     exit_vehicle s tid p now = exit_vehicle s tid q now"
  by (simp add: exit_vehicle_unknown)

theorem exit_vehicle_invalid_ticket_no_change_witness:
  "tickets parked_lot 7 = None \<and>
   lot_after (exit_vehicle parked_lot 7 CashPayment 60) = parked_lot \<and>
   trace (exit_vehicle parked_lot 7 CashPayment 60) = [Print_Invalid_Ticket] \<and>
   exit_vehicle parked_lot 7 CashPayment 60 = exit_vehicle parked_lot 7 declined 60"
proof -
  have unknown: "tickets parked_lot 7 = None"
    by (simp add: parked_lot_eq)
  from exit_vehicle_invalid_ticket_no_change [OF unknown, of CashPayment 60 declined] unknown
  show ?thesis by blast
qed

text \<open>
  Claim C4. For every state and every live ticket, an \<open>exit_vehicle\<close> whose payment
  strategy answers \<open>False\<close> leaves the spots, the ledger and the ticket counter as they
  were. A later \<open>exit_vehicle\<close> for the same ticket whose payment strategy answers \<open>True\<close>
  succeeds: it frees the spot, retires the ticket and prints the success message, and
  for the same elapsed time it charges the amount the declined attempt charged.
\<close>

theorem exit_vehicle_declined_then_retry:
  assumes "tickets s tid = Some tk"
    and "\<not> p (calculate_fee (entry_time tk) now)"
    and "q (calculate_fee (entry_time tk) now')"
    and "s' = lot_after (exit_vehicle s tid p now)"
    and "r = exit_vehicle s' tid q now'"
  shows "s' = s \<and>
         trace (exit_vehicle s tid p now) = [Pay (calculate_fee (entry_time tk) now)] \<and>
         trace r = [Pay (calculate_fee (entry_time tk) now'), Print_Exit_successful] \<and>
         tickets (lot_after r) tid = None \<and>
         \<not> occupied (heap (lot_after r) (spot tk)) \<and>
         r = exit_vehicle s tid q now' \<and>
         (now' - entry_time tk = now - entry_time tk \<longrightarrow>
            trace r = [Pay (calculate_fee (entry_time tk) now), Print_Exit_successful])"
proof -
  from exit_vehicle_declined [of s tid tk p now] assms(1,2,4)
  have same: "s' = s"
    and first: "trace (exit_vehicle s tid p now) = [Pay (calculate_fee (entry_time tk) now)]"
    by simp_all
  from exit_vehicle_paid [of s tid tk q now'] assms(1,3,5) same
  have r: "r = \<lparr>returned = None,
        lot_after = s\<lparr>heap := (heap s)(spot tk := (heap s (spot tk))\<lparr>occupied := False\<rparr>),
                      tickets := (tickets s)(tid := None)\<rparr>,
        trace = [Pay (calculate_fee (entry_time tk) now'), Print_Exit_successful]\<rparr>"
    by simp
  have second: "trace r = [Pay (calculate_fee (entry_time tk) now'), Print_Exit_successful]"
    and gone: "tickets (lot_after r) tid = None"
    and freed: "\<not> occupied (heap (lot_after r) (spot tk))"
    unfolding r by simp_all
  have direct: "r = exit_vehicle s tid q now'"
    using assms(5) same by simp
  have "trace r = [Pay (calculate_fee (entry_time tk) now), Print_Exit_successful]"
    if "now' - entry_time tk = now - entry_time tk"
  proof -
    from that have "now' = now" by simp
    with second show ?thesis by simp
  qed
  with same first second gone freed direct show ?thesis by blast
qed

theorem exit_vehicle_declined_then_retry_witness:
  "tickets parked_lot 1 = Some \<lparr>ticket_id = 1, vehicle = car, spot = 1, entry_time = 0\<rparr> \<and>
   \<not> declined (Finite 75) \<and> CashPayment (Finite 75) \<and>
   lot_after (exit_vehicle parked_lot 1 declined 5400) = parked_lot \<and>
   trace (exit_vehicle parked_lot 1 declined 5400) = [Pay (Finite 75)] \<and>
   trace (exit_vehicle (lot_after (exit_vehicle parked_lot 1 declined 5400)) 1 CashPayment 5400) =
     [Pay (Finite 75), Print_Exit_successful]"
proof -
  let ?tk = "\<lparr>ticket_id = 1, vehicle = car, spot = 1, entry_time = 0\<rparr>"
  have fee: "calculate_fee (entry_time ?tk) 5400 = Finite 75"
    by (rule calculate_fee_5400) simp
  have live: "tickets parked_lot 1 = Some ?tk"
    by (simp add: parked_lot_eq)
  have no: "\<not> declined (Finite 75)"
    by (simp add: declined_def)
  have yes: "CashPayment (Finite 75)"
    by (simp add: CashPayment_def)
  note retry = exit_vehicle_declined_then_retry
    [where s = parked_lot and tid = 1 and tk = ?tk and p = declined and q = CashPayment
       and now = 5400 and now' = 5400, unfolded fee, OF live no yes refl refl]
  from retry live no yes show ?thesis by blast
qed

text \<open>
  Claim C10. Frame of a successful exit: for every state and every live ticket, when the
  payment strategy answers \<open>True\<close> the spot of the ticket becomes free and the ticket
  leaves the ledger; every other spot, the list of spots, every other ledger entry and
  the ticket counter are as before.
\<close>

theorem exit_vehicle_paid_frame:
  assumes "tickets s tid = Some tk"
    and "p (calculate_fee (entry_time tk) now)"
    and "s' = lot_after (exit_vehicle s tid p now)"
  shows "heap s' (spot tk) = (heap s (spot tk))\<lparr>occupied := False\<rparr> \<and>
         \<not> occupied (heap s' (spot tk)) \<and>
         (\<forall>a. a \<noteq> spot tk \<longrightarrow> heap s' a = heap s a) \<and>
         spots s' = spots s \<and>
         tickets s' tid = None \<and>
         (\<forall>t. t \<noteq> tid \<longrightarrow> tickets s' t = tickets s t) \<and>
         ticket_counter s' = ticket_counter s"
  using exit_vehicle_paid [of s tid tk p now] assms by simp

theorem exit_vehicle_paid_frame_witness:
  "tickets parked_lot 1 = Some \<lparr>ticket_id = 1, vehicle = car, spot = 1, entry_time = 0\<rparr> \<and>
   CashPayment (calculate_fee 0 60) \<and>
   \<not> occupied (heap (lot_after (exit_vehicle parked_lot 1 CashPayment 60)) 1) \<and>
   heap (lot_after (exit_vehicle parked_lot 1 CashPayment 60)) 0 = heap parked_lot 0 \<and>
   tickets (lot_after (exit_vehicle parked_lot 1 CashPayment 60)) 1 = None \<and>
   ticket_counter (lot_after (exit_vehicle parked_lot 1 CashPayment 60)) = 2"
proof -
  let ?tk = "\<lparr>ticket_id = 1, vehicle = car, spot = 1, entry_time = 0\<rparr>"
  have live: "tickets parked_lot 1 = Some ?tk"
    by (simp add: parked_lot_eq)
  have yes: "CashPayment (calculate_fee (entry_time ?tk) 60)"
    by (simp add: CashPayment_def)
  have c: "ticket_counter parked_lot = 2"
    by (simp add: parked_lot_eq)
  from exit_vehicle_paid_frame
    [where s = parked_lot and tid = 1 and tk = ?tk and p = CashPayment and now = 60,
      OF live yes refl] live yes c
  show ?thesis by simp
qed

section \<open>Entering the lot\<close>

text \<open>
  Claim C6. For every state and vehicle: when no registered spot of the vehicle's
  required class is free, \<open>park_vehicle\<close> prints that the parking is full, returns none
  and changes nothing (no occupancy flag, no ledger entry, the ticket counter as it was).
  Otherwise it marks the spot that \<open>_find_spot\<close> found as occupied, creates a ticket with
  the vehicle, that spot and the entry time read at creation, stores it in the ledger
  under its identifier, and returns it.
\<close>

theorem park_vehicle_full_or_ticket:
  "((\<forall>b \<in> set (spots s). \<not> (spot_type (heap s b) = mapping (vehicle_type v) \<and>
                               \<not> occupied (heap s b))) \<longrightarrow>
      park_vehicle s v now = \<lparr>returned = None, lot_after = s, trace = [Print_Parking_Full]\<rparr>) \<and>
   ((\<exists>b \<in> set (spots s). spot_type (heap s b) = mapping (vehicle_type v) \<and>
                           \<not> occupied (heap s b)) \<longrightarrow>
      (\<exists>a ticket. find_spot s (vehicle_type v) = Some a \<and>
         ticket = \<lparr>ticket_id = ticket_counter s, vehicle = v, spot = a, entry_time = now\<rparr> \<and>
         returned (park_vehicle s v now) = Some ticket \<and>
         trace (park_vehicle s v now) = [Print_Ticket_generated (ticket_counter s)] \<and>
         heap (lot_after (park_vehicle s v now)) a = (heap s a)\<lparr>occupied := True\<rparr> \<and>
         (\<forall>b. b \<noteq> a \<longrightarrow> heap (lot_after (park_vehicle s v now)) b = heap s b) \<and>
         spots (lot_after (park_vehicle s v now)) = spots s \<and>
         tickets (lot_after (park_vehicle s v now)) (ticket_counter s) = Some ticket \<and>
         (\<forall>t. t \<noteq> ticket_counter s \<longrightarrow>
            tickets (lot_after (park_vehicle s v now)) t = tickets s t) \<and>
         ticket_counter (lot_after (park_vehicle s v now)) = ticket_counter s + 1))"
proof (intro conjI impI)
  assume "\<forall>b \<in> set (spots s). \<not> (spot_type (heap s b) = mapping (vehicle_type v) \<and>
                               \<not> occupied (heap s b))"
  then have "find_spot s (vehicle_type v) = None"
    by (simp add: find_spot_def find_spot_loop_find find_None_iff)
  then show "park_vehicle s v now =
      \<lparr>returned = None, lot_after = s, trace = [Print_Parking_Full]\<rparr>"
    by (rule park_vehicle_full)
next
  assume "\<exists>b \<in> set (spots s). spot_type (heap s b) = mapping (vehicle_type v) \<and>
                           \<not> occupied (heap s b)"
  then obtain b where b: "b \<in> set (spots s)" "spot_type (heap s b) = mapping (vehicle_type v)"
    "\<not> occupied (heap s b)" by blast
  have "find_spot s (vehicle_type v) \<noteq> None"
  proof
    assume "find_spot s (vehicle_type v) = None"
    from find_spot_NoneD [OF this b(1,2)] b(3) show False by simp
  qed
  then obtain a where found: "find_spot s (vehicle_type v) = Some a" by blast
  let ?ticket = "\<lparr>ticket_id = ticket_counter s, vehicle = v, spot = a, entry_time = now\<rparr>"
  have "find_spot s (vehicle_type v) = Some a \<and>
         ?ticket = \<lparr>ticket_id = ticket_counter s, vehicle = v, spot = a, entry_time = now\<rparr> \<and>
         returned (park_vehicle s v now) = Some ?ticket \<and>
         trace (park_vehicle s v now) = [Print_Ticket_generated (ticket_counter s)] \<and>
         heap (lot_after (park_vehicle s v now)) a = (heap s a)\<lparr>occupied := True\<rparr> \<and>
         (\<forall>b. b \<noteq> a \<longrightarrow> heap (lot_after (park_vehicle s v now)) b = heap s b) \<and>
         spots (lot_after (park_vehicle s v now)) = spots s \<and>
         tickets (lot_after (park_vehicle s v now)) (ticket_counter s) = Some ?ticket \<and>
         (\<forall>t. t \<noteq> ticket_counter s \<longrightarrow>
            tickets (lot_after (park_vehicle s v now)) t = tickets s t) \<and>
         ticket_counter (lot_after (park_vehicle s v now)) = ticket_counter s + 1"
    using found by (simp add: park_vehicle_found [OF found])
  then show "\<exists>a ticket. find_spot s (vehicle_type v) = Some a \<and>
         ticket = \<lparr>ticket_id = ticket_counter s, vehicle = v, spot = a, entry_time = now\<rparr> \<and>
         returned (park_vehicle s v now) = Some ticket \<and>
         trace (park_vehicle s v now) = [Print_Ticket_generated (ticket_counter s)] \<and>
         heap (lot_after (park_vehicle s v now)) a = (heap s a)\<lparr>occupied := True\<rparr> \<and>
         (\<forall>b. b \<noteq> a \<longrightarrow> heap (lot_after (park_vehicle s v now)) b = heap s b) \<and>
         spots (lot_after (park_vehicle s v now)) = spots s \<and>
         tickets (lot_after (park_vehicle s v now)) (ticket_counter s) = Some ticket \<and>
         (\<forall>t. t \<noteq> ticket_counter s \<longrightarrow>
            tickets (lot_after (park_vehicle s v now)) t = tickets s t) \<and>
         ticket_counter (lot_after (park_vehicle s v now)) = ticket_counter s + 1"
    by blast
qed

theorem park_vehicle_full_or_ticket_witness:
  "(\<exists>b \<in> set (spots (main_lot blank)). spot_type (heap (main_lot blank) b) = mapping (vehicle_type car) \<and>
       \<not> occupied (heap (main_lot blank) b)) \<and>
   returned (park_vehicle (main_lot blank) car 0) =
     Some \<lparr>ticket_id = 1, vehicle = car, spot = 1, entry_time = 0\<rparr> \<and>
   spots parked_lot = [0, 1, 2] \<and>
   spot_type (heap parked_lot 0) \<noteq> mapping (vehicle_type car) \<and>
   occupied (heap parked_lot 1) \<and>
   spot_type (heap parked_lot 2) \<noteq> mapping (vehicle_type car) \<and>
   park_vehicle parked_lot car 60 =
     \<lparr>returned = None, lot_after = parked_lot, trace = [Print_Parking_Full]\<rparr>"
proof -
  have free: "\<exists>b \<in> set (spots (main_lot blank)).
      spot_type (heap (main_lot blank) b) = mapping (vehicle_type car) \<and>
       \<not> occupied (heap (main_lot blank) b)"
    by (simp add: main_lot_eq three_spots_at car_def)
  have found: "find_spot (main_lot blank) (vehicle_type car) = Some 1"
    by (simp add: car_def find_spot_main_lot_car)
  have c: "ticket_counter (main_lot blank) = 1"
    by (simp add: main_lot_eq)
  from park_vehicle_full_or_ticket [of "main_lot blank" car 0] free
  obtain a ticket where "find_spot (main_lot blank) (vehicle_type car) = Some a"
    "ticket = \<lparr>ticket_id = ticket_counter (main_lot blank), vehicle = car, spot = a, entry_time = 0\<rparr>"
    "returned (park_vehicle (main_lot blank) car 0) = Some ticket"
    by blast
  with found c have ret: "returned (park_vehicle (main_lot blank) car 0) =
     Some \<lparr>ticket_id = 1, vehicle = car, spot = 1, entry_time = 0\<rparr>"
    by simp
  have full: "\<forall>b \<in> set (spots parked_lot).
      \<not> (spot_type (heap parked_lot b) = mapping (vehicle_type car) \<and> \<not> occupied (heap parked_lot b))"
    by (simp add: parked_lot_eq three_spots_at car_def)
  with park_vehicle_full_or_ticket [of parked_lot car 60]
  have "park_vehicle parked_lot car 60 =
     \<lparr>returned = None, lot_after = parked_lot, trace = [Print_Parking_Full]\<rparr>"
    by blast
  moreover have "spots parked_lot = [0, 1, 2]"
    "spot_type (heap parked_lot 0) \<noteq> mapping (vehicle_type car)"
    "occupied (heap parked_lot 1)"
    "spot_type (heap parked_lot 2) \<noteq> mapping (vehicle_type car)"
    by (simp_all add: parked_lot_eq three_spots_at car_def)
  ultimately show ?thesis using free ret by blast
qed

section \<open>Ticket identifiers\<close>

lemma ticket_counter_park:
  "ticket_counter (lot_after (park_vehicle s v now)) =
     (case returned (park_vehicle s v now) of
        None \<Rightarrow> ticket_counter s | Some ticket \<Rightarrow> ticket_counter s + 1)"
  by (cases "find_spot s (vehicle_type v)") (simp_all add: park_vehicle_full park_vehicle_found)

lemma ticket_id_park:
  "returned (park_vehicle s v now) = Some ticket \<Longrightarrow> ticket_id ticket = ticket_counter s"
  by (cases "find_spot s (vehicle_type v)") (auto simp: park_vehicle_full park_vehicle_found)

lemma ticket_counter_exit:
  "ticket_counter (lot_after (exit_vehicle s tid p now)) = ticket_counter s"
  by (simp add: exit_vehicle_def Let_def split: option.split)

lemma ticket_counter_step: "ticket_counter s \<le> ticket_counter (step s c)"
  by (cases c) (simp_all add: ticket_counter_park ticket_counter_exit split: option.split)

lemma ticket_counter_run: "ticket_counter s \<le> ticket_counter (run s cs)"
proof (induction cs arbitrary: s)
  case Nil
  show ?case by simp
next
  case (Cons c cs)
  have "ticket_counter s \<le> ticket_counter (step s c)" by (rule ticket_counter_step)
  also have "\<dots> \<le> ticket_counter (run (step s c) cs)" by (rule Cons.IH)
  finally show ?case by simp
qed

lemma issued_bounds:
  "i \<in> set (issued s cs) \<Longrightarrow> ticket_counter s \<le> i \<and> i < ticket_counter (run s cs)"
proof (induction s cs rule: issued.induct)
  case (1 s)
  then show ?case by simp
next
  case (2 s v now cs)
  let ?s' = "step s (Park v now)"
  show ?case
  proof (cases "returned (park_vehicle s v now)")
    case None
    with 2 have "ticket_counter ?s' \<le> i \<and> i < ticket_counter (run ?s' cs)" by simp
    with ticket_counter_step [of s "Park v now"] show ?thesis by simp
  next
    case (Some ticket)
    have next_c: "ticket_counter ?s' = ticket_counter s + 1"
      using Some by (simp add: ticket_counter_park)
    from 2(3) Some have "i = ticket_id ticket \<or> i \<in> set (issued ?s' cs)" by simp
    then show ?thesis
    proof
      assume "i = ticket_id ticket"
      with ticket_id_park [OF Some] have "i = ticket_counter s" by simp
      with next_c ticket_counter_run [of ?s' cs] show ?thesis by simp
    next
      assume "i \<in> set (issued ?s' cs)"
      with 2(2) Some have "ticket_counter ?s' \<le> i \<and> i < ticket_counter (run ?s' cs)" by simp
      with next_c show ?thesis by simp
    qed
  qed
next
  case (3 s tid p now cs)
  let ?s' = "step s (Exit tid p now)"
  from 3 have "ticket_counter ?s' \<le> i \<and> i < ticket_counter (run ?s' cs)" by simp
  with ticket_counter_step [of s "Exit tid p now"] show ?case by simp
qed

lemma issued_sorted: "sorted_wrt (<) (issued s cs)"
proof (induction s cs rule: issued.induct)
  case (1 s)
  show ?case by simp
next
  case (2 s v now cs)
  let ?s' = "step s (Park v now)"
  show ?case
  proof (cases "returned (park_vehicle s v now)")
    case None
    with 2 show ?thesis by simp
  next
    case (Some ticket)
    have next_c: "ticket_counter ?s' = ticket_counter s + 1"
      using Some by (simp add: ticket_counter_park)
    have "ticket_id ticket < i" if "i \<in> set (issued ?s' cs)" for i
      using issued_bounds [OF that] next_c ticket_id_park [OF Some] by simp
    with 2(2) Some show ?thesis by simp
  qed
next
  case (3 s tid p now cs)
  then show ?case by simp
qed

text \<open>
  Claim C8. Ticket identifiers increase along every sequence of calls: each successful
  \<open>park_vehicle\<close> hands out an identifier strictly greater than every identifier handed
  out before, so none is used twice, also after a successful exit has removed its
  ticket; the counter starts at 1 and no call lowers it.
\<close>

theorem ticket_ids_strictly_increasing:
  "sorted_wrt (<) (issued s cs) \<and> distinct (issued s cs) \<and>
   (\<forall>i \<in> set (issued s cs). ticket_counter s \<le> i \<and> i < ticket_counter (run s cs)) \<and>
   (\<forall>i \<in> set (issued s cs). \<forall>j \<in> set (issued (run s cs) cs'). i < j) \<and>
   ticket_counter s \<le> ticket_counter (step s c) \<and>
   ticket_counter s \<le> ticket_counter (run s cs) \<and>
   ticket_counter (lot_after (exit_vehicle s tid p now)) = ticket_counter s \<and>
   ticket_counter (setup_lot h refs) = 1"
proof -
  have sorted: "sorted_wrt (<) (issued s cs)" by (rule issued_sorted)
  then have dist: "distinct (issued s cs)"
    by (simp add: strict_sorted_iff)
  have bounds: "\<forall>i \<in> set (issued s cs). ticket_counter s \<le> i \<and> i < ticket_counter (run s cs)"
    using issued_bounds by blast
  have later: "\<forall>i \<in> set (issued s cs). \<forall>j \<in> set (issued (run s cs) cs'). i < j"
  proof (intro ballI)
    fix i j
    assume "i \<in> set (issued s cs)" "j \<in> set (issued (run s cs) cs')"
    from issued_bounds [OF this(1)] issued_bounds [OF this(2)] show "i < j" by simp
  qed
  have init: "ticket_counter (setup_lot h refs) = 1"
    by (simp add: setup_lot_eq)
  from sorted dist bounds later ticket_counter_step [of s c] ticket_counter_run [of s cs]
    ticket_counter_exit [of s tid p now] init
  show ?thesis by blast
qed

theorem ticket_ids_strictly_increasing_witness:
  "issued (main_lot blank) [Park car 0, Exit 1 CashPayment 60, Park car 120] = [1, 2] \<and>
   sorted_wrt (<) (issued (main_lot blank) [Park car 0, Exit 1 CashPayment 60, Park car 120]) \<and>
   distinct (issued (main_lot blank) [Park car 0, Exit 1 CashPayment 60, Park car 120]) \<and>
   ticket_counter (run (main_lot blank) [Park car 0, Exit 1 CashPayment 60, Park car 120]) = 3"
proof -
  let ?cs = "[Park car 0, Exit 1 CashPayment 60, Park car 120]"
  have evals: "issued (main_lot blank) ?cs = [1, 2]"
    "ticket_counter (main_lot blank) = 1"
    "ticket_counter (run (main_lot blank) ?cs) = 3"
    by (simp_all add: main_lot_eq park_vehicle_def exit_vehicle_def find_spot_def three_spots_at
        car_def is_available_def occupy_def free_def ParkingTicket_init_def CashPayment_def Let_def)
  from ticket_ids_strictly_increasing [of "main_lot blank" ?cs] evals
  show ?thesis by simp
qed

section \<open>What an exit returns\<close>



section \<open>The end-to-end scenario\<close>

text \<open>
  Claim C9. With exactly the three spots Compact 1, Regular 2 and Large 3: the first car
  to enter gets a ticket bound to spot 2 (at reference 1), which becomes occupied; a
  second car entering before the first has left is told that the parking is full, and
  spots 1 and 3 stay as they were; after the first car exits with a payment that
  succeeds its ticket is retired and spot 2 is free; the second car then enters and is
  bound to spot 2.
\<close>

theorem end_to_end_scenario:
  assumes "vehicle_type v1 = CAR" and "vehicle_type v2 = CAR"
    and "p (calculate_fee t1 t3)"
    and "s1 = lot_after (enter (main_lot h) v1 t1)"
    and "s3 = lot_after (exit_vehicle s1 1 p t3)"
  shows "returned (enter (main_lot h) v1 t1) =
           Some \<lparr>ticket_id = 1, vehicle = v1, spot = 1, entry_time = t1\<rparr> \<and>
         heap s1 1 = \<lparr>spot_id = 2, spot_type = REGULAR, occupied = True\<rparr> \<and>
         enter s1 v2 t2 = \<lparr>returned = None, lot_after = s1, trace = [Print_Parking_Full]\<rparr> \<and>
         heap s1 0 = \<lparr>spot_id = 1, spot_type = COMPACT, occupied = False\<rparr> \<and>
         heap s1 2 = \<lparr>spot_id = 3, spot_type = LARGE, occupied = False\<rparr> \<and>
         trace (exit_vehicle s1 1 p t3) = [Pay (calculate_fee t1 t3), Print_Exit_successful] \<and>
         tickets s3 1 = None \<and>
         heap s3 1 = \<lparr>spot_id = 2, spot_type = REGULAR, occupied = False\<rparr> \<and>
         returned (enter s3 v2 t4) =
           Some \<lparr>ticket_id = 2, vehicle = v2, spot = 1, entry_time = t4\<rparr> \<and>
         heap (lot_after (enter s3 v2 t4)) 1 =
           \<lparr>spot_id = 2, spot_type = REGULAR, occupied = True\<rparr>"
proof -
  let ?tk = "\<lparr>ticket_id = 1, vehicle = v1, spot = 1, entry_time = t1\<rparr>"
  have found0: "find_spot (main_lot h) (vehicle_type v1) = Some 1"
    using assms(1) by (simp add: find_spot_main_lot_car)
  from park_vehicle_found [OF found0, of t1]
  have first: "returned (enter (main_lot h) v1 t1) = Some ?tk"
    and s1: "s1 = \<lparr>heap = (three_spots h)(1 := \<lparr>spot_id = 2, spot_type = REGULAR, occupied = True\<rparr>),
        spots = [0, 1, 2], tickets = [1 \<mapsto> ?tk], ticket_counter = 2\<rparr>"
    using assms(4) by (simp_all add: enter_def main_lot_eq three_spots_at)
  have "find_spot s1 (vehicle_type v2) = None"
    unfolding s1 using assms(2) by (simp add: find_spot_def three_spots_at is_available_def)
  then have second: "enter s1 v2 t2 =
      \<lparr>returned = None, lot_after = s1, trace = [Print_Parking_Full]\<rparr>"
    unfolding enter_def by (rule park_vehicle_full)
  have others: "heap s1 0 = \<lparr>spot_id = 1, spot_type = COMPACT, occupied = False\<rparr>"
    "heap s1 2 = \<lparr>spot_id = 3, spot_type = LARGE, occupied = False\<rparr>"
    "heap s1 1 = \<lparr>spot_id = 2, spot_type = REGULAR, occupied = True\<rparr>"
    unfolding s1 by (simp_all add: three_spots_at)
  have live: "tickets s1 1 = Some ?tk"
    unfolding s1 by simp
  have pay: "p (calculate_fee (entry_time ?tk) t3)"
    using assms(3) by simp
  from exit_vehicle_paid [of s1 1 ?tk p t3, OF live pay]
  have out: "trace (exit_vehicle s1 1 p t3) = [Pay (calculate_fee t1 t3), Print_Exit_successful]"
    and s3: "s3 = \<lparr>heap = (three_spots h)(1 := \<lparr>spot_id = 2, spot_type = REGULAR, occupied = False\<rparr>),
        spots = [0, 1, 2], tickets = Map.empty, ticket_counter = 2\<rparr>"
    using assms(5) by (simp_all add: s1)
  have found3: "find_spot s3 (vehicle_type v2) = Some 1"
    unfolding s3 using assms(2) by (simp add: find_spot_def three_spots_at is_available_def)
  from park_vehicle_found [OF found3, of t4]
  have again: "returned (enter s3 v2 t4) =
           Some \<lparr>ticket_id = 2, vehicle = v2, spot = 1, entry_time = t4\<rparr>"
    "heap (lot_after (enter s3 v2 t4)) 1 =
           \<lparr>spot_id = 2, spot_type = REGULAR, occupied = True\<rparr>"
    by (simp_all add: enter_def s3)
  have retired: "tickets s3 1 = None"
    "heap s3 1 = \<lparr>spot_id = 2, spot_type = REGULAR, occupied = False\<rparr>"
    unfolding s3 by simp_all
  from first second others out retired again show ?thesis by blast
qed

theorem end_to_end_scenario_witness:
  "vehicle_type car = CAR \<and> CashPayment (calculate_fee 0 5400) \<and>
   returned (enter (main_lot blank) car 0) =
     Some \<lparr>ticket_id = 1, vehicle = car, spot = 1, entry_time = 0\<rparr> \<and>
   enter parked_lot car 60 =
     \<lparr>returned = None, lot_after = parked_lot, trace = [Print_Parking_Full]\<rparr> \<and>
   trace (exit_vehicle parked_lot 1 CashPayment 5400) = [Pay (Finite 75), Print_Exit_successful] \<and>
   returned (enter (lot_after (exit_vehicle parked_lot 1 CashPayment 5400)) car 6000) =
     Some \<lparr>ticket_id = 2, vehicle = car, spot = 1, entry_time = 6000\<rparr>"
proof -
  have is_car: "vehicle_type car = CAR"
    by (simp add: car_def)
  have fee: "calculate_fee 0 5400 = Finite 75"
    by (rule calculate_fee_5400) simp
  have pay: "CashPayment (calculate_fee 0 5400)"
    by (simp add: CashPayment_def)
  note scenario = end_to_end_scenario
    [where ?v1.0 = car and ?v2.0 = car and p = CashPayment and ?t1.0 = 0 and ?t3.0 = 5400
       and ?t2.0 = 60 and ?t4.0 = 6000 and h = blank and ?s1.0 = parked_lot,
      OF is_car is_car pay parked_lot_def refl, unfolded fee]
  from scenario is_car pay show ?thesis by blast
qed

end
